theory Spec2Isabelle
  imports Main "HOL-Library.Multiset"
begin

section \<open>Data model of annot.go\<close>

text \<open>
  The structs of \<^verbatim>\<open>src/annot.go\<close>. Go's \<^verbatim>\<open>int\<close> is modelled by \<open>int\<close>: for columns
  from 0 to \<open>2 ^ 62\<close> and texts that fit into memory, no sum or difference computed
  below leaves the range of a 64-bit integer. The field \<^verbatim>\<open>length\<close> of \<^verbatim>\<open>line\<close> is called
  \<open>length_l\<close> and the type \<^verbatim>\<open>section\<close> is called \<open>sect\<close> here. Strings are byte
  lists, as Go strings are.
\<close>

record line =
  length_l :: int
  leadingSpaces :: int

record Annot =
  Col :: int
  Lines :: "string list"
  row :: int
  lines :: "line list"
  pipeLeadingSpaces :: "int list"

datatype sect = above | linesFirstTwo | linesAfterSecond | trailingSpaceLines | noAnnot

text \<open>
  The panics the code can raise: an index out of range, a nil pointer dereference,
  a negative count handed to \<^verbatim>\<open>strings.Repeat\<close>, and the explicit
  \<^verbatim>\<open>panic("should never be reached")\<close>; and the two errors of \<^verbatim>\<open>src/error.go\<close> with
  their fields, \<^verbatim>\<open>annotPos, col, colEnd\<close> and \<^verbatim>\<open>colEnd, firstAnnotPos, secondAnnotCol\<close>.
\<close>

datatype error =
  IndexOutOfRange | NilDereference | NegativeRepeatCount | ShouldNeverBeReached
  | ColExceedsColEndError int int int
  | OverlapError int int int

text \<open>
  A caller outside the package can only write \<^verbatim>\<open>&Annot{Col: c, Lines: ls}\<close>: the
  unexported fields start at their zero values.
\<close>

definition newAnnot :: "int \<Rightarrow> string list \<Rightarrow> Annot" where
  "newAnnot c ls = \<lparr>Col = c, Lines = ls, row = 0, lines = [], pipeLeadingSpaces = []\<rparr>"

definition fresh :: "Annot \<Rightarrow> bool" where
  "fresh a = (row a = 0 \<and> lines a = [] \<and> pipeLeadingSpaces a = [])"

section \<open>Row placement\<close>

text \<open>
  \<^verbatim>\<open>closestAnnot\<close> returns a pointer into \<^verbatim>\<open>rightAnnots\<close> and a section; the pointer
  is modelled by the index of the annotation in \<open>rightAnnots\<close>, \<open>None\<close> for \<^verbatim>\<open>nil\<close>.
\<close>

fun closestAnnot :: "int \<Rightarrow> Annot list \<Rightarrow> int \<Rightarrow> nat option \<times> sect" where
  "closestAnnot r [] t = (None, noAnnot)"
| "closestAnnot r (a # as) t =
     (if r < row a then (Some 0, above)
      else if row a \<le> r \<and> r < row a + int (length (lines a)) \<and> r < 2
        then (Some 0, linesFirstTwo)
      else if 2 \<le> r \<and> r < row a + int (length (lines a))
        then (Some 0, linesAfterSecond)
      else if row a + int (length (lines a)) \<le> r \<and> r < row a + int (length (lines a)) + t
        then (Some 0, trailingSpaceLines)
      else (case closestAnnot r as t of (k, s) \<Rightarrow> (map_option Suc k, s)))"

text \<open>
  The two indexed assignments \<^verbatim>\<open>x.pipeLeadingSpaces[i] = v\<close> and
  \<^verbatim>\<open>x.lines[i].leadingSpaces = v\<close> on the annotation \<open>k\<close> of the slice; an index out
  of range panics.
\<close>

definition setPipeLeadingSpace :: "nat option \<Rightarrow> int \<Rightarrow> int \<Rightarrow> Annot list \<Rightarrow> error + Annot list" where
  "setPipeLeadingSpace p i v as =
     (case p of
        None \<Rightarrow> Inl NilDereference
      | Some k \<Rightarrow>
          if k < length as \<and> 0 \<le> i \<and> i < int (length (pipeLeadingSpaces (as ! k)))
          then Inr (as[k := (as ! k)\<lparr>pipeLeadingSpaces := (pipeLeadingSpaces (as ! k))[nat i := v]\<rparr>])
          else Inl IndexOutOfRange)"

definition setLineLeadingSpace :: "nat option \<Rightarrow> int \<Rightarrow> int \<Rightarrow> Annot list \<Rightarrow> error + Annot list" where
  "setLineLeadingSpace p i v as =
     (case p of
        None \<Rightarrow> Inl NilDereference
      | Some k \<Rightarrow>
          if k < length as \<and> 0 \<le> i \<and> i < int (length (lines (as ! k)))
          then Inr (as[k := (as ! k)\<lparr>lines :=
                 (lines (as ! k))[nat i := (lines (as ! k) ! nat i)\<lparr>leadingSpaces := v\<rparr>]\<rparr>])
          else Inl IndexOutOfRange)"

definition colOf :: "nat option \<Rightarrow> Annot list \<Rightarrow> error + int" where
  "colOf p as =
     (case p of
        None \<Rightarrow> Inl NilDereference
      | Some k \<Rightarrow> if k < length as then Inr (Col (as ! k)) else Inl IndexOutOfRange)"

definition rowOf :: "nat option \<Rightarrow> Annot list \<Rightarrow> int" where
  "rowOf p as = (case p of None \<Rightarrow> 0 | Some k \<Rightarrow> row (as ! k))"

definition setSpace :: "int \<Rightarrow> Annot \<Rightarrow> Annot list \<Rightarrow> error + Annot list" where
  "setSpace rowBefore a rightAnnots =
     (case closestAnnot rowBefore rightAnnots 0 of (rightA, s) \<Rightarrow>
        (case s of
           above \<Rightarrow>
             (case colOf rightA rightAnnots of
                Inl e \<Rightarrow> Inl e
              | Inr c \<Rightarrow> setPipeLeadingSpace rightA rowBefore (c - Col a - 1) rightAnnots)
         | linesFirstTwo \<Rightarrow>
             (case colOf rightA rightAnnots of
                Inl e \<Rightarrow> Inl e
              | Inr c \<Rightarrow> setLineLeadingSpace rightA (rowBefore - rowOf rightA rightAnnots)
                          (c - Col a - 1) rightAnnots)
         | linesAfterSecond \<Rightarrow>
             (case colOf rightA rightAnnots of
                Inl e \<Rightarrow> Inl e
              | Inr c \<Rightarrow> setLineLeadingSpace rightA (rowBefore - rowOf rightA rightAnnots)
                          (c - Col a - 1) rightAnnots)
         | noAnnot \<Rightarrow> Inr rightAnnots
         | trailingSpaceLines \<Rightarrow> Inr rightAnnots))"

text \<open>
  \<^verbatim>\<open>checkLineAndSetSpace\<close> returns whether the line fits, together with the
  annotation \<open>a\<close> and the right annotations as the call leaves them.
\<close>

definition checkLineAndSetSpace ::
  "int \<Rightarrow> nat \<Rightarrow> Annot \<Rightarrow> Annot list \<Rightarrow> error + (bool \<times> Annot \<times> Annot list)" where
  "checkLineAndSetSpace rw aLineIdx a rightAnnots =
     (let rowPlusLineIdx = rw + int aLineIdx in
      case closestAnnot rowPlusLineIdx rightAnnots 1 of (closestA, s) \<Rightarrow>
        if s = noAnnot then Inr (True, a, rightAnnots)
        else if \<not> aLineIdx < length (lines a) then Inl IndexOutOfRange
        else
          (let lineLength = 3 + length_l (lines a ! aLineIdx) in
           case colOf closestA rightAnnots of
             Inl e \<Rightarrow> Inl e
           | Inr c \<Rightarrow>
              (let remainingSpaces = c - Col a - lineLength;
                   tooLongForAboveOrLinesFirstTwo =
                     ((s = above \<or> s = linesFirstTwo) \<and> remainingSpaces < 2)
               in
               if remainingSpaces < 0 \<or> tooLongForAboveOrLinesFirstTwo
               then Inr (False,
                         a\<lparr>row := row a + 1,
                           pipeLeadingSpaces := pipeLeadingSpaces a @ [Col a]\<rparr>,
                         rightAnnots)
               else
                 (case s of
                    above \<Rightarrow>
                      (case setPipeLeadingSpace closestA rowPlusLineIdx remainingSpaces rightAnnots of
                         Inl e \<Rightarrow> Inl e
                       | Inr rs \<Rightarrow> Inr (True, a, rs))
                  | linesFirstTwo \<Rightarrow>
                      (case setLineLeadingSpace closestA
                              (rowPlusLineIdx - rowOf closestA rightAnnots) remainingSpaces rightAnnots of
                         Inl e \<Rightarrow> Inl e
                       | Inr rs \<Rightarrow> Inr (True, a, rs))
                  | linesAfterSecond \<Rightarrow>
                      (case setLineLeadingSpace closestA
                              (rowPlusLineIdx - rowOf closestA rightAnnots) remainingSpaces rightAnnots of
                         Inl e \<Rightarrow> Inl e
                       | Inr rs \<Rightarrow> Inr (True, a, rs))
                  | trailingSpaceLines \<Rightarrow>
                      (case closestAnnot rowPlusLineIdx rightAnnots 0 of (closestA2, s2) \<Rightarrow>
                         if s2 = noAnnot then Inr (True, a, rightAnnots)
                         else
                           (case colOf closestA2 rightAnnots of
                              Inl e \<Rightarrow> Inl e
                            | Inr c2 \<Rightarrow>
                                if s2 = above
                                then (case setPipeLeadingSpace closestA2 rowPlusLineIdx
                                             (c2 - Col a - lineLength) rightAnnots of
                                        Inl e \<Rightarrow> Inl e
                                      | Inr rs \<Rightarrow> Inr (True, a, rs))
                                else (case setLineLeadingSpace closestA2
                                             (rowPlusLineIdx - rowOf closestA2 rightAnnots)
                                             (c2 - Col a - lineLength) rightAnnots of
                                        Inl e \<Rightarrow> Inl e
                                      | Inr rs \<Rightarrow> Inr (True, a, rs))))
                  | noAnnot \<Rightarrow> Inl ShouldNeverBeReached))))"

text \<open>
  The loop of \<^verbatim>\<open>checkLinesAndSetSpaces\<close> over the line indices of \<open>a\<close>, from
  \<open>aLineIdx\<close> on. That this loop and the loop of \<^verbatim>\<open>setRow\<close> end is proved in the
  section on termination.
\<close>

function checkLinesLoop ::
  "int \<Rightarrow> nat \<Rightarrow> Annot \<Rightarrow> Annot list \<Rightarrow> error + (bool \<times> Annot \<times> Annot list)" where
  "checkLinesLoop rw aLineIdx a rightAnnots =
     (if aLineIdx < length (lines a)
      then (case checkLineAndSetSpace rw aLineIdx a rightAnnots of
              Inl e \<Rightarrow> Inl e
            | Inr (lineFits, a', rs') \<Rightarrow>
                if \<not> lineFits then Inr (False, a', rs')
                else checkLinesLoop rw (Suc aLineIdx) a' rs')
      else Inr (True, a, rightAnnots))"
  by pat_completeness auto

definition checkLinesAndSetSpaces ::
  "int \<Rightarrow> Annot \<Rightarrow> Annot list \<Rightarrow> error + (bool \<times> Annot \<times> Annot list)" where
  "checkLinesAndSetSpaces rw a rightAnnots = checkLinesLoop rw 0 a rightAnnots"

text \<open>
  The loop of \<^verbatim>\<open>setRow\<close>, from the candidate row \<open>rw\<close> on. It returns the
  annotation and its right annotations as the accepted row leaves them.
\<close>

function setRowLoop :: "int \<Rightarrow> Annot \<Rightarrow> Annot list \<Rightarrow> error + (Annot \<times> Annot list)" where
  "setRowLoop rw a rightAnnots =
     (let rowBefore = rw - 1 in
      case (if rowBefore \<noteq> - 1 then setSpace rowBefore a rightAnnots else Inr rightAnnots) of
        Inl e \<Rightarrow> Inl e
      | Inr rs \<Rightarrow>
          (case checkLinesAndSetSpaces rw a rs of
             Inl e \<Rightarrow> Inl e
           | Inr (annotFits, a', rs') \<Rightarrow>
               if annotFits then Inr (a', rs') else setRowLoop (rw + 1) a' rs'))"
  by pat_completeness auto

definition setRow :: "Annot \<Rightarrow> Annot list \<Rightarrow> error + (Annot \<times> Annot list)" where
  "setRow a rightAnnots = setRowLoop 0 a rightAnnots"

section \<open>Rendering\<close>

text \<open>
  The glyphs as their UTF-8 bytes: the arrow \<^verbatim>\<open>U+2191\<close>, the pipe \<^verbatim>\<open>U+2502\<close>, and the
  connector, \<^verbatim>\<open>U+2514 U+2500\<close> and a space.
\<close>

definition arrow :: string where
  "arrow = [CHR 0xE2, CHR 0x86, CHR 0x91]"

definition pipe :: string where
  "pipe = [CHR 0xE2, CHR 0x94, CHR 0x82]"

definition connector :: string where
  "connector = [CHR 0xE2, CHR 0x94, CHR 0x94, CHR 0xE2, CHR 0x94, CHR 0x80, CHR 0x20]"

definition newline :: string where
  "newline = [CHR 0x0A]"

text \<open>\<^verbatim>\<open>strings.Repeat\<close> panics on a negative count.\<close>

definition Repeat :: "string \<Rightarrow> int \<Rightarrow> error + string" where
  "Repeat s cnt =
     (if cnt < 0 then Inl NegativeRepeatCount else Inr (concat (replicate (nat cnt) s)))"

text \<open>Reading \<^verbatim>\<open>xs[i]\<close>.\<close>

definition index :: "'a list \<Rightarrow> int \<Rightarrow> error + 'a" where
  "index xs i = (if 0 \<le> i \<and> i < int (length xs) then Inr (xs ! nat i) else Inl IndexOutOfRange)"

text \<open>
  The first loop of \<^verbatim>\<open>write\<close>: the header line in the builder \<open>b\<close>, and \<open>rowCount\<close>.
\<close>

fun writeHeader :: "Annot list \<Rightarrow> int \<Rightarrow> int \<Rightarrow> string \<Rightarrow> error + (string \<times> int)" where
  "writeHeader [] lastColPos rowCount b = Inr (b, rowCount)"
| "writeHeader (a # as) lastColPos rowCount b =
     (case Repeat '' '' (Col a - lastColPos) of
        Inl e \<Rightarrow> Inl e
      | Inr sp \<Rightarrow>
          writeHeader as (Col a + 1) (max rowCount (row a + int (length (lines a))))
            (b @ sp @ arrow))"

text \<open>The \<^verbatim>\<open>switch\<close> in the body of the row loop, for one annotation.\<close>

definition writeSegment :: "int \<Rightarrow> Annot \<Rightarrow> string \<Rightarrow> error + string" where
  "writeSegment rw a b =
     (if rw < row a then
        (case index (pipeLeadingSpaces a) rw of
           Inl e \<Rightarrow> Inl e
         | Inr n \<Rightarrow>
             (case Repeat '' '' n of
                Inl e \<Rightarrow> Inl e
              | Inr sp \<Rightarrow> Inr (b @ sp @ pipe)))
      else if rw = row a then
        (case index (lines a) (rw - row a) of
           Inl e \<Rightarrow> Inl e
         | Inr l \<Rightarrow>
             (case Repeat '' '' (leadingSpaces l) of
                Inl e \<Rightarrow> Inl e
              | Inr sp \<Rightarrow>
                  if length (Lines a) \<noteq> 0
                  then (case index (Lines a) 0 of
                          Inl e \<Rightarrow> Inl e
                        | Inr t \<Rightarrow> Inr (b @ sp @ connector @ t))
                  else Inr (b @ sp @ connector)))
      else if rw < row a + int (length (lines a)) then
        (case index (lines a) (rw - row a) of
           Inl e \<Rightarrow> Inl e
         | Inr l \<Rightarrow>
             (case Repeat '' '' (leadingSpaces l) of
                Inl e \<Rightarrow> Inl e
              | Inr sp \<Rightarrow>
                  (case index (Lines a) (rw - row a) of
                     Inl e \<Rightarrow> Inl e
                   | Inr t \<Rightarrow> Inr (b @ sp @ ''   '' @ t))))
      else Inr b)"

fun writeRow :: "int \<Rightarrow> Annot list \<Rightarrow> string \<Rightarrow> error + string" where
  "writeRow rw [] b = Inr b"
| "writeRow rw (a # as) b =
     (case writeSegment rw a b of Inl e \<Rightarrow> Inl e | Inr b' \<Rightarrow> writeRow rw as b')"

text \<open>
  The row loop. The writer is an in-memory buffer (\<^verbatim>\<open>strings.Builder\<close> in
  \<^verbatim>\<open>String\<close>, \<^verbatim>\<open>bytes.Buffer\<close> in the tests), whose writes do not fail; \<open>out\<close> is what
  it holds. The result is the text written and the panic that stopped the call, if any.
  The function \<^verbatim>\<open>write\<close> is called \<open>write'\<close> here.
\<close>

function writeRows :: "int \<Rightarrow> int \<Rightarrow> Annot list \<Rightarrow> string \<Rightarrow> string \<times> error option" where
  "writeRows rw rowCount annots out =
     (if rw < rowCount
      then (case writeRow rw annots [] of
              Inl e \<Rightarrow> (out, Some e)
            | Inr b \<Rightarrow> writeRows (rw + 1) rowCount annots (out @ b @ newline))
      else (out, None))"
  by pat_completeness auto
termination
  by (relation "measure (\<lambda>(rw, rowCount, annots, out). nat (rowCount - rw))") auto

declare writeRows.simps [simp del]

definition write' :: "Annot list \<Rightarrow> string \<times> error option" where
  "write' annots =
     (case writeHeader annots 0 0 [] of
        Inl e \<Rightarrow> ([], Some e)
      | Inr (b, rowCount) \<Rightarrow> writeRows 0 rowCount annots (b @ newline))"

section \<open>Write\<close>

text \<open>
  \<^verbatim>\<open>slices.CompactFunc\<close> keeps the first element of every run of consecutive equal
  elements; Go compares an element with the one before it in the slice, which for an
  equivalence, as the equality of columns is, is the comparison with the first element
  of the run. \<^verbatim>\<open>slices.SortFunc\<close> orders by \<^verbatim>\<open>a.Col - b.Col\<close>; it is modelled by the
  insertion sort \<open>sort_key\<close>, which is what Go runs on up to twelve elements, and on
  pairwise different columns every sorting algorithm returns the same slice.
  \<^verbatim>\<open>uniseg.StringWidth\<close> belongs to another module and is the parameter \<open>StringWidth\<close>;
  on printable ASCII it is the number of bytes, \<open>asciiWidth\<close>.
\<close>

fun CompactFunc :: "('a \<Rightarrow> 'a \<Rightarrow> bool) \<Rightarrow> 'a list \<Rightarrow> 'a list" where
  "CompactFunc eq [] = []"
| "CompactFunc eq [x] = [x]"
| "CompactFunc eq (x # y # xs) =
     (if eq x y then CompactFunc eq (x # xs) else x # CompactFunc eq (y # xs))"

definition SortFunc :: "Annot list \<Rightarrow> Annot list" where
  "SortFunc annots = sort_key Col annots"

definition asciiWidth :: "string \<Rightarrow> int" where
  "asciiWidth s = int (length s)"

text \<open>The body of the first loop of \<^verbatim>\<open>Write\<close>, for one annotation.\<close>

definition initLines :: "(string \<Rightarrow> int) \<Rightarrow> Annot \<Rightarrow> Annot" where
  "initLines StringWidth a =
     (if length (Lines a) = 0
      then a\<lparr>lines := lines a @ [\<lparr>length_l = 0, leadingSpaces = 0\<rparr>]\<rparr>
      else a\<lparr>lines := map (\<lambda>s. \<lparr>length_l = StringWidth s, leadingSpaces = Col a\<rparr>) (Lines a),
             pipeLeadingSpaces := []\<rparr>)"

text \<open>
  The second loop of \<^verbatim>\<open>Write\<close>, with the counter \<open>aIdxDecr + 1\<close>: it starts at
  \<open>length annots - 1\<close> and stops at \<open>0\<close>.
\<close>

fun setRows :: "nat \<Rightarrow> Annot list \<Rightarrow> error + Annot list" where
  "setRows 0 annots = Inr annots"
| "setRows (Suc aIdxDecr) annots =
     (case setRow (annots ! aIdxDecr) (drop (Suc aIdxDecr) annots) of
        Inl e \<Rightarrow> Inl e
      | Inr (a', rs') \<Rightarrow> setRows aIdxDecr (take aIdxDecr annots @ a' # rs'))"

text \<open>
  \<open>place\<close> is \<^verbatim>\<open>Write\<close> up to its last line: the annotations as they are handed to
  \<^verbatim>\<open>write\<close>. The annotations of the slice are different objects.
\<close>

definition place :: "(string \<Rightarrow> int) \<Rightarrow> Annot list \<Rightarrow> error + Annot list" where
  "place StringWidth annots =
     (let annots1 = CompactFunc (\<lambda>a1 a2. Col a1 = Col a2) annots;
          annots2 = map (initLines StringWidth) (SortFunc annots1)
      in setRows (length annots2 - 1) annots2)"

definition Write :: "(string \<Rightarrow> int) \<Rightarrow> Annot list \<Rightarrow> string \<times> error option" where
  "Write StringWidth annots =
     (if length (CompactFunc (\<lambda>a1 a2. Col a1 = Col a2) annots) = 0 then ([], None)
      else (case place StringWidth annots of
              Inl e \<Rightarrow> ([], Some e)
            | Inr annots' \<Rightarrow> write' annots'))"

section \<open>The revision of annot.go with ranged annotations\<close>

text \<open>
  \<^verbatim>\<open>src/annot.go\<close> has no \<^verbatim>\<open>ColEnd\<close>: its annotations are arrows, and its \<^verbatim>\<open>Write\<close>
  returns no error of \<^verbatim>\<open>src/error.go\<close>. The revision of \<^verbatim>\<open>annot.go\<close> that has ranged
  annotations is the second document of \<^verbatim>\<open>src/example_test.go\<close> (its lines 23 to 360).
  The claims about ranged annotations, C5 and C6, are settled on that revision, which is
  modelled here; its names carry an \<open>R\<close> where they would clash with the names above.
  Its struct \<^verbatim>\<open>Annot\<close> is the one above with the two fields \<^verbatim>\<open>ColEnd\<close> and
  \<^verbatim>\<open>pipeColIdx\<close> added.
\<close>

record AnnotR = Annot +
  ColEnd :: int
  pipeColIdx :: int

datatype sectR = aboveR | lineOne | lineTwo | linesAfterSecondR | trailingSpaceLinesR | noAnnotR

fun space :: "sectR \<Rightarrow> int" where
  "space aboveR = 2"
| "space lineOne = 2"
| "space lineTwo = 4"
| "space linesAfterSecondR = 2"
| "space trailingSpaceLinesR = 1"
| "space noAnnotR = - 1"

fun colPosShift :: "sectR \<Rightarrow> int" where
  "colPosShift aboveR = 0"
| "colPosShift lineOne = 0"
| "colPosShift lineTwo = 3"
| "colPosShift linesAfterSecondR = 3"
| "colPosShift trailingSpaceLinesR = 3"
| "colPosShift noAnnotR = - 1"

definition newAnnotR :: "int \<Rightarrow> int \<Rightarrow> string list \<Rightarrow> AnnotR" where
  "newAnnotR c e ls = \<lparr>Col = c, Lines = ls, row = 0, lines = [], pipeLeadingSpaces = [],
                        ColEnd = e, pipeColIdx = 0\<rparr>"

fun closestAnnotR :: "int \<Rightarrow> AnnotR list \<Rightarrow> int \<Rightarrow> nat option \<times> sectR" where
  "closestAnnotR r [] t = (None, noAnnotR)"
| "closestAnnotR r (a # as) t =
     (if r < row a then (Some 0, aboveR)
      else if row a = r then (Some 0, lineOne)
      else if row a + 1 = r \<and> r < row a + int (length (lines a)) then (Some 0, lineTwo)
      else if 2 \<le> r \<and> r < row a + int (length (lines a)) then (Some 0, linesAfterSecondR)
      else if row a + int (length (lines a)) \<le> r \<and> r < row a + int (length (lines a)) + t
        then (Some 0, trailingSpaceLinesR)
      else (case closestAnnotR r as t of (k, s) \<Rightarrow> (map_option Suc k, s)))"

definition setPipeLeadingSpaceR ::
  "nat option \<Rightarrow> int \<Rightarrow> int \<Rightarrow> AnnotR list \<Rightarrow> error + AnnotR list" where
  "setPipeLeadingSpaceR p i v as =
     (case p of
        None \<Rightarrow> Inl NilDereference
      | Some k \<Rightarrow>
          if k < length as \<and> 0 \<le> i \<and> i < int (length (pipeLeadingSpaces (as ! k)))
          then Inr (as[k := (as ! k)\<lparr>pipeLeadingSpaces := (pipeLeadingSpaces (as ! k))[nat i := v]\<rparr>])
          else Inl IndexOutOfRange)"

definition setLineLeadingSpaceR ::
  "nat option \<Rightarrow> int \<Rightarrow> int \<Rightarrow> AnnotR list \<Rightarrow> error + AnnotR list" where
  "setLineLeadingSpaceR p i v as =
     (case p of
        None \<Rightarrow> Inl NilDereference
      | Some k \<Rightarrow>
          if k < length as \<and> 0 \<le> i \<and> i < int (length (lines (as ! k)))
          then Inr (as[k := (as ! k)\<lparr>lines :=
                 (lines (as ! k))[nat i := (lines (as ! k) ! nat i)\<lparr>leadingSpaces := v\<rparr>]\<rparr>])
          else Inl IndexOutOfRange)"

definition pipeColIdxOf :: "nat option \<Rightarrow> AnnotR list \<Rightarrow> error + int" where
  "pipeColIdxOf p as =
     (case p of
        None \<Rightarrow> Inl NilDereference
      | Some k \<Rightarrow> if k < length as then Inr (pipeColIdx (as ! k)) else Inl IndexOutOfRange)"

definition rowOfR :: "nat option \<Rightarrow> AnnotR list \<Rightarrow> int" where
  "rowOfR p as = (case p of None \<Rightarrow> 0 | Some k \<Rightarrow> row (as ! k))"

definition setSpaceR :: "int \<Rightarrow> AnnotR \<Rightarrow> AnnotR list \<Rightarrow> error + AnnotR list" where
  "setSpaceR rowBefore a rightAnnots =
     (case closestAnnotR rowBefore rightAnnots 0 of (closestA, s) \<Rightarrow>
        if s = aboveR then
          (case pipeColIdxOf closestA rightAnnots of
             Inl e \<Rightarrow> Inl e
           | Inr c \<Rightarrow> setPipeLeadingSpaceR closestA rowBefore
                       (c + colPosShift s - pipeColIdx a - 1) rightAnnots)
        else if s = lineOne \<or> s = lineTwo \<or> s = linesAfterSecondR then
          (case pipeColIdxOf closestA rightAnnots of
             Inl e \<Rightarrow> Inl e
           | Inr c \<Rightarrow> setLineLeadingSpaceR closestA (rowBefore - rowOfR closestA rightAnnots)
                       (c + colPosShift s - pipeColIdx a - 1) rightAnnots)
        else Inr rightAnnots)"

definition checkLineAndSetSpaceR ::
  "int \<Rightarrow> nat \<Rightarrow> AnnotR \<Rightarrow> AnnotR list \<Rightarrow> error + (bool \<times> AnnotR \<times> AnnotR list)" where
  "checkLineAndSetSpaceR rw aLineIdx a rightAnnots =
     (let rowPlusLineIdx = rw + int aLineIdx in
      case closestAnnotR rowPlusLineIdx rightAnnots 1 of (closestA, s) \<Rightarrow>
        if s = noAnnotR then Inr (True, a, rightAnnots)
        else if \<not> aLineIdx < length (lines a) then Inl IndexOutOfRange
        else
          (let lineLength = 3 + length_l (lines a ! aLineIdx) in
           case pipeColIdxOf closestA rightAnnots of
             Inl e \<Rightarrow> Inl e
           | Inr c \<Rightarrow>
              (let remainingSpaces = c + colPosShift s - pipeColIdx a - lineLength in
               if remainingSpaces - space s < 0
               then Inr (False,
                         a\<lparr>row := row a + 1,
                           pipeLeadingSpaces := pipeLeadingSpaces a @ [pipeColIdx a]\<rparr>,
                         rightAnnots)
               else if s = aboveR then
                 (case setPipeLeadingSpaceR closestA rowPlusLineIdx remainingSpaces rightAnnots of
                    Inl e \<Rightarrow> Inl e
                  | Inr rs \<Rightarrow> Inr (True, a, rs))
               else if s = lineOne \<or> s = lineTwo \<or> s = linesAfterSecondR then
                 (case setLineLeadingSpaceR closestA
                         (rowPlusLineIdx - rowOfR closestA rightAnnots) remainingSpaces rightAnnots of
                    Inl e \<Rightarrow> Inl e
                  | Inr rs \<Rightarrow> Inr (True, a, rs))
               else if s = trailingSpaceLinesR then
                 (case closestAnnotR rowPlusLineIdx rightAnnots 0 of (closestA2, s2) \<Rightarrow>
                    if s2 = noAnnotR then Inr (True, a, rightAnnots)
                    else
                      (case pipeColIdxOf closestA2 rightAnnots of
                         Inl e \<Rightarrow> Inl e
                       | Inr c2 \<Rightarrow>
                          (let leadingSpaces2 = c2 + colPosShift s2 - pipeColIdx a - lineLength in
                           if s2 = aboveR
                           then (case setPipeLeadingSpaceR closestA2 rowPlusLineIdx
                                        leadingSpaces2 rightAnnots of
                                   Inl e \<Rightarrow> Inl e
                                 | Inr rs \<Rightarrow> Inr (True, a, rs))
                           else (case setLineLeadingSpaceR closestA2
                                        (rowPlusLineIdx - rowOfR closestA2 rightAnnots)
                                        leadingSpaces2 rightAnnots of
                                   Inl e \<Rightarrow> Inl e
                                 | Inr rs \<Rightarrow> Inr (True, a, rs)))))
               else Inl ShouldNeverBeReached)))"

function checkLinesLoopR ::
  "int \<Rightarrow> nat \<Rightarrow> AnnotR \<Rightarrow> AnnotR list \<Rightarrow> error + (bool \<times> AnnotR \<times> AnnotR list)" where
  "checkLinesLoopR rw aLineIdx a rightAnnots =
     (if aLineIdx < length (lines a)
      then (case checkLineAndSetSpaceR rw aLineIdx a rightAnnots of
              Inl e \<Rightarrow> Inl e
            | Inr (lineFits, a', rs') \<Rightarrow>
                if \<not> lineFits then Inr (False, a', rs')
                else checkLinesLoopR rw (Suc aLineIdx) a' rs')
      else Inr (True, a, rightAnnots))"
  by pat_completeness auto

definition checkLinesAndSetSpacesR ::
  "int \<Rightarrow> AnnotR \<Rightarrow> AnnotR list \<Rightarrow> error + (bool \<times> AnnotR \<times> AnnotR list)" where
  "checkLinesAndSetSpacesR rw a rightAnnots = checkLinesLoopR rw 0 a rightAnnots"

function setRowLoopR :: "int \<Rightarrow> AnnotR \<Rightarrow> AnnotR list \<Rightarrow> error + (AnnotR \<times> AnnotR list)" where
  "setRowLoopR rw a rightAnnots =
     (let rowBefore = rw - 1 in
      case (if rowBefore \<noteq> - 1 then setSpaceR rowBefore a rightAnnots else Inr rightAnnots) of
        Inl e \<Rightarrow> Inl e
      | Inr rs \<Rightarrow>
          (case checkLinesAndSetSpacesR rw a rs of
             Inl e \<Rightarrow> Inl e
           | Inr (annotFits, a', rs') \<Rightarrow>
               if annotFits then Inr (a', rs') else setRowLoopR (rw + 1) a' rs'))"
  by pat_completeness auto

definition setRowR :: "AnnotR \<Rightarrow> AnnotR list \<Rightarrow> error + (AnnotR \<times> AnnotR list)" where
  "setRowR a rightAnnots = setRowLoopR 0 a rightAnnots"

text \<open>
  The glyphs of a range as their UTF-8 bytes: \<^verbatim>\<open>U+251C\<close>, \<^verbatim>\<open>U+2514\<close>, \<^verbatim>\<open>U+2500\<close>,
  \<^verbatim>\<open>U+252C\<close> and \<^verbatim>\<open>U+2518\<close>.
\<close>

definition teeRight :: string where
  "teeRight = [CHR 0xE2, CHR 0x94, CHR 0x9C]"

definition cornerLeft :: string where
  "cornerLeft = [CHR 0xE2, CHR 0x94, CHR 0x94]"

definition dash :: string where
  "dash = [CHR 0xE2, CHR 0x94, CHR 0x80]"

definition teeDown :: string where
  "teeDown = [CHR 0xE2, CHR 0x94, CHR 0xAC]"

definition cornerRight :: string where
  "cornerRight = [CHR 0xE2, CHR 0x94, CHR 0x98]"

text \<open>The loop of \<^verbatim>\<open>arrowOrRangeString\<close>, with the builder \<open>b\<close>.\<close>

fun arrowOrRangeLoop :: "AnnotR list \<Rightarrow> int \<Rightarrow> string \<Rightarrow> error + string" where
  "arrowOrRangeLoop [] widthWritten b = Inr b"
| "arrowOrRangeLoop (a # as) widthWritten b =
     (if ColEnd a = 0 then
        (case Repeat '' '' (pipeColIdx a - widthWritten) of
           Inl e \<Rightarrow> Inl e
         | Inr sp \<Rightarrow> arrowOrRangeLoop as (pipeColIdx a + 1) (b @ sp @ arrow))
      else
        (case Repeat '' '' (Col a - widthWritten) of
           Inl e \<Rightarrow> Inl e
         | Inr sp \<Rightarrow>
             (case (if Col a = pipeColIdx a then Inr (b @ sp @ teeRight)
                    else (case Repeat dash (pipeColIdx a - Col a - 1) of
                            Inl e \<Rightarrow> Inl e
                          | Inr d \<Rightarrow> Inr (b @ sp @ cornerLeft @ d @ teeDown))) of
                Inl e \<Rightarrow> Inl e
              | Inr b1 \<Rightarrow>
                  (case Repeat dash (ColEnd a - pipeColIdx a - 1) of
                     Inl e \<Rightarrow> Inl e
                   | Inr d \<Rightarrow> arrowOrRangeLoop as (ColEnd a + 1) (b1 @ d @ cornerRight)))))"

definition arrowOrRangeString :: "AnnotR list \<Rightarrow> error + string" where
  "arrowOrRangeString annots = arrowOrRangeLoop annots 0 []"

fun rowCountLoop :: "AnnotR list \<Rightarrow> int \<Rightarrow> int" where
  "rowCountLoop [] rowCount = rowCount"
| "rowCountLoop (a # as) rowCount =
     rowCountLoop as (max rowCount (row a + int (length (lines a))))"

definition writeSegmentR :: "int \<Rightarrow> AnnotR \<Rightarrow> string \<Rightarrow> error + string" where
  "writeSegmentR rw a b =
     (if rw < row a then
        (case index (pipeLeadingSpaces a) rw of
           Inl e \<Rightarrow> Inl e
         | Inr n \<Rightarrow>
             (case Repeat '' '' n of
                Inl e \<Rightarrow> Inl e
              | Inr sp \<Rightarrow> Inr (b @ sp @ pipe)))
      else if rw = row a then
        (case index (lines a) (rw - row a) of
           Inl e \<Rightarrow> Inl e
         | Inr l \<Rightarrow>
             (case Repeat '' '' (leadingSpaces l) of
                Inl e \<Rightarrow> Inl e
              | Inr sp \<Rightarrow>
                  if length (Lines a) \<noteq> 0
                  then (case index (Lines a) 0 of
                          Inl e \<Rightarrow> Inl e
                        | Inr t \<Rightarrow> Inr (b @ sp @ connector @ t))
                  else Inr (b @ sp @ connector)))
      else if rw < row a + int (length (lines a)) then
        (case index (lines a) (rw - row a) of
           Inl e \<Rightarrow> Inl e
         | Inr l \<Rightarrow>
             (case Repeat '' '' (leadingSpaces l) of
                Inl e \<Rightarrow> Inl e
              | Inr sp \<Rightarrow>
                  (case index (Lines a) (rw - row a) of
                     Inl e \<Rightarrow> Inl e
                   | Inr t \<Rightarrow> Inr (b @ sp @ t))))
      else Inr b)"

fun writeRowR :: "int \<Rightarrow> AnnotR list \<Rightarrow> string \<Rightarrow> error + string" where
  "writeRowR rw [] b = Inr b"
| "writeRowR rw (a # as) b =
     (case writeSegmentR rw a b of Inl e \<Rightarrow> Inl e | Inr b' \<Rightarrow> writeRowR rw as b')"

function writeRowsR :: "int \<Rightarrow> int \<Rightarrow> AnnotR list \<Rightarrow> string \<Rightarrow> string \<times> error option" where
  "writeRowsR rw rowCount annots out =
     (if rw < rowCount
      then (case writeRowR rw annots [] of
              Inl e \<Rightarrow> (out, Some e)
            | Inr b \<Rightarrow> writeRowsR (rw + 1) rowCount annots (out @ b @ newline))
      else (out, None))"
  by pat_completeness auto
termination
  by (relation "measure (\<lambda>(rw, rowCount, annots, out). nat (rowCount - rw))") auto

declare writeRowsR.simps [simp del]

definition writeR :: "AnnotR list \<Rightarrow> string \<times> error option" where
  "writeR annots =
     (let rowCount = rowCountLoop annots 0 in
      case arrowOrRangeString annots of
        Inl e \<Rightarrow> ([], Some e)
      | Inr b \<Rightarrow> writeRowsR 0 rowCount annots (b @ newline))"

text \<open>Go's division of integers truncates towards zero.\<close>

definition quot :: "int \<Rightarrow> int \<Rightarrow> int" where
  "quot x y = sgn x * sgn y * (\<bar>x\<bar> div \<bar>y\<bar>)"

definition createLines :: "(string \<Rightarrow> int) \<Rightarrow> AnnotR \<Rightarrow> AnnotR" where
  "createLines StringWidth a =
     (if length (Lines a) = 0
      then a\<lparr>lines := [\<lparr>length_l = 0, leadingSpaces = pipeColIdx a\<rparr>]\<rparr>
      else a\<lparr>lines :=
             map (\<lambda>i. \<lparr>length_l = StringWidth (Lines a ! i),
                       leadingSpaces = (if 0 < i then pipeColIdx a + 3 else pipeColIdx a)\<rparr>)
               [0 ..< length (Lines a)]\<rparr>)"

text \<open>
  The first loop of \<^verbatim>\<open>Write\<close>, at the index \<open>aIdx\<close>; \<open>prev\<close> is \<^verbatim>\<open>annots[aIdx-1]\<close>, and
  there is none at the index 0. The errors of \<^verbatim>\<open>src/error.go\<close> are returned, not raised.
\<close>

fun checkLoop :: "(string \<Rightarrow> int) \<Rightarrow> nat \<Rightarrow> AnnotR option \<Rightarrow> AnnotR list \<Rightarrow> error + AnnotR list" where
  "checkLoop StringWidth aIdx prev [] = Inr []"
| "checkLoop StringWidth aIdx prev (a # as) =
     (if ColEnd a \<noteq> 0 \<and> Col a \<ge> ColEnd a
      then Inl (ColExceedsColEndError (int aIdx + 1) (Col a) (ColEnd a))
      else
        (let a1 = a\<lparr>pipeColIdx := (if ColEnd a \<noteq> 0 then quot (Col a + ColEnd a) 2 else Col a)\<rparr>
         in case prev of
              Some p \<Rightarrow>
                if 0 < aIdx \<and> ColEnd p \<noteq> 0 \<and> ColEnd p \<ge> Col a1
                then Inl (OverlapError (ColEnd p) (int aIdx) (Col a1))
                else (case checkLoop StringWidth (Suc aIdx) (Some (createLines StringWidth a1)) as of
                        Inl e \<Rightarrow> Inl e
                      | Inr as' \<Rightarrow> Inr (createLines StringWidth a1 # as'))
            | None \<Rightarrow>
                (case checkLoop StringWidth (Suc aIdx) (Some (createLines StringWidth a1)) as of
                   Inl e \<Rightarrow> Inl e
                 | Inr as' \<Rightarrow> Inr (createLines StringWidth a1 # as'))))"

fun setRowsR :: "nat \<Rightarrow> AnnotR list \<Rightarrow> error + AnnotR list" where
  "setRowsR 0 annots = Inr annots"
| "setRowsR (Suc aIdxDecr) annots =
     (case setRowR (annots ! aIdxDecr) (drop (Suc aIdxDecr) annots) of
        Inl e \<Rightarrow> Inl e
      | Inr (a', rs') \<Rightarrow> setRowsR aIdxDecr (take aIdxDecr annots @ a' # rs'))"

definition SortFuncR :: "AnnotR list \<Rightarrow> AnnotR list" where
  "SortFuncR annots = sort_key Col annots"

definition WriteR :: "(string \<Rightarrow> int) \<Rightarrow> AnnotR list \<Rightarrow> string \<times> error option" where
  "WriteR StringWidth annots =
     (let annots1 = CompactFunc (\<lambda>a1 a2. Col a1 = Col a2) annots in
      if length annots1 = 0 then ([], None)
      else
        (case checkLoop StringWidth 0 None (SortFuncR annots1) of
           Inl e \<Rightarrow> ([], Some e)
         | Inr annots2 \<Rightarrow>
             (case setRowsR (length annots2 - 1) annots2 of
                Inl e \<Rightarrow> ([], Some e)
              | Inr annots3 \<Rightarrow> writeR annots3)))"

section \<open>Definitions for the proofs\<close>

text \<open>
  All of an annotation but the values of its leading spaces: its column, its text, its
  row, the lengths of its lines and the number of its pipe leading spaces. The decisions
  of the placement read nothing else of a right annotation, and the assignments to leading
  spaces never change it.
\<close>

definition geo :: "Annot \<Rightarrow> int \<times> string list \<times> int \<times> int list \<times> nat" where
  "geo a = (Col a, Lines a, row a, map length_l (lines a), length (pipeLeadingSpaces a))"

text \<open>A row from which on no right annotation is met, also not with one trailing line.\<close>

fun rowBound :: "Annot list \<Rightarrow> int" where
  "rowBound [] = 0"
| "rowBound (a # as) = max (row a + int (length (lines a)) + 1) (rowBound as)"

text \<open>
  The same for the revision with ranged annotations: the row and the number of lines of
  a right annotation, which no call changes, and the bound.
\<close>

definition extent :: "AnnotR \<Rightarrow> int \<times> nat" where
  "extent a = (row a, length (lines a))"

fun rowBoundR :: "AnnotR list \<Rightarrow> int" where
  "rowBoundR [] = 0"
| "rowBoundR (a # as) = max (row a + int (length (lines a)) + 1) (rowBoundR as)"

text \<open>
  After the first loop of \<^verbatim>\<open>Write\<close> on annotations that come from the caller, and after
  every call of \<^verbatim>\<open>setRow\<close>, an annotation has one pipe leading space per row above it.
\<close>

definition pipesOk :: "Annot \<Rightarrow> bool" where
  "pipesOk a = (row a = int (length (pipeLeadingSpaces a)))"

text \<open>
  The decision of \<^verbatim>\<open>checkLineAndSetSpace\<close> without its assignments, and that of
  \<^verbatim>\<open>checkLinesAndSetSpaces\<close>; \<open>checkLine_spec\<close> and \<open>checkLinesLoop_spec\<close> below
  show that the code returns them.
\<close>

definition fitsLine :: "int \<Rightarrow> nat \<Rightarrow> Annot \<Rightarrow> Annot list \<Rightarrow> bool" where
  "fitsLine rw i a rs =
     (case closestAnnot (rw + int i) rs 1 of
        (None, s) \<Rightarrow> True
      | (Some k, s) \<Rightarrow>
          (let remainingSpaces = Col (rs ! k) - Col a - (3 + length_l (lines a ! i))
           in 0 \<le> remainingSpaces \<and> (s \<in> {above, linesFirstTwo} \<longrightarrow> 2 \<le> remainingSpaces)))"

definition annotFitsFrom :: "int \<Rightarrow> nat \<Rightarrow> Annot \<Rightarrow> Annot list \<Rightarrow> bool" where
  "annotFitsFrom rw i a rs = (\<forall>j \<in> {i ..< length (lines a)}. fitsLine rw j a rs)"

text \<open>The annotation as \<^verbatim>\<open>checkLineAndSetSpace\<close> leaves it when a line does not fit.\<close>

definition rejected :: "Annot \<Rightarrow> Annot" where
  "rejected a = a\<lparr>row := row a + 1, pipeLeadingSpaces := pipeLeadingSpaces a @ [Col a]\<rparr>"

text \<open>What \<^verbatim>\<open>checkLineAndSetSpace\<close> reads of the annotation it places.\<close>

definition shape :: "Annot \<Rightarrow> int \<times> string list \<times> int list" where
  "shape a = (Col a, Lines a, map length_l (lines a))"

text \<open>
  The result of \<^verbatim>\<open>checkLinesAndSetSpaces\<close> alone: whether the annotation fits at the
  candidate row, or the panic.
\<close>

definition fitResult :: "int \<Rightarrow> Annot \<Rightarrow> Annot list \<Rightarrow> error + bool" where
  "fitResult rw a rightAnnots = map_sum id fst (checkLinesAndSetSpaces rw a rightAnnots)"

text \<open>The slice at the start of the second loop of \<^verbatim>\<open>Write\<close>.\<close>

definition normalized :: "(string \<Rightarrow> int) \<Rightarrow> Annot list \<Rightarrow> Annot list" where
  "normalized StringWidth annots =
     map (initLines StringWidth) (SortFunc (CompactFunc (\<lambda>a1 a2. Col a1 = Col a2) annots))"

text \<open>The two conditions that the first loop of \<^verbatim>\<open>Write\<close> tests.\<close>

definition rangeInvalid :: "AnnotR \<Rightarrow> bool" where
  "rangeInvalid a = (ColEnd a \<noteq> 0 \<and> Col a \<ge> ColEnd a)"

definition rangeOverlap :: "AnnotR \<Rightarrow> AnnotR \<Rightarrow> bool" where
  "rangeOverlap p a = (ColEnd p \<noteq> 0 \<and> ColEnd p \<ge> Col a)"

text \<open>
  The bracket of a range from \<open>c\<close> to \<open>e\<close> with the pipe column \<open>m\<close>: one glyph per column
  from \<open>c\<close> to \<open>e\<close>, with the tee at \<open>m\<close>.
\<close>

definition bracket :: "int \<Rightarrow> int \<Rightarrow> int \<Rightarrow> string" where
  "bracket c m e =
     (if c = m then teeRight
      else cornerLeft @ concat (replicate (nat (m - c - 1)) dash) @ teeDown)
     @ concat (replicate (nat (e - m - 1)) dash) @ cornerRight"

section \<open>Termination of the loops\<close>

lemma checkLine_lines:
  "checkLineAndSetSpace rw i a rs = Inr (b, a', rs') \<Longrightarrow> lines a' = lines a"
  by (auto simp: checkLineAndSetSpace_def Let_def
           split: prod.splits if_splits sum.splits sect.splits)

lemma checkLine_True_same:
  "checkLineAndSetSpace rw i a rs = Inr (True, a', rs') \<Longrightarrow> a' = a"
  by (auto simp: checkLineAndSetSpace_def Let_def
           split: prod.splits if_splits sum.splits sect.splits)

termination checkLinesLoop
  by (relation "measure (\<lambda>(rw, i, a, rs). length (lines a) - i)")
     (auto dest: checkLine_lines)

declare checkLinesLoop.simps [simp del]

lemma closestAnnot_geo:
  "map geo rs = map geo rs' \<Longrightarrow> closestAnnot r rs t = closestAnnot r rs' t"
proof (induction rs arbitrary: rs')
  case Nil
  then show ?case by simp
next
  case (Cons a rs)
  then obtain b rs2 where rs': "rs' = b # rs2" by (cases rs') auto
  with Cons.prems have g: "geo a = geo b" and m: "map geo rs = map geo rs2" by auto
  from g have "row a = row b" "length (lines a) = length (lines b)"
    by (auto simp: geo_def dest: map_eq_imp_length_eq)
  with Cons.IH[OF m] rs' show ?case by simp
qed

lemma rowBound_geo: "map geo rs = map geo rs' \<Longrightarrow> rowBound rs = rowBound rs'"
proof (induction rs arbitrary: rs')
  case Nil
  then show ?case by simp
next
  case (Cons a rs)
  then obtain b rs2 where rs': "rs' = b # rs2" by (cases rs') auto
  with Cons.prems have g: "geo a = geo b" and m: "map geo rs = map geo rs2" by auto
  from g have "row a = row b" "length (lines a) = length (lines b)"
    by (auto simp: geo_def dest: map_eq_imp_length_eq)
  with Cons.IH[OF m] rs' show ?case by simp
qed

lemma closestAnnot_Some: "closestAnnot r rs t = (Some k, s) \<Longrightarrow> k < length rs"
  by (induction rs arbitrary: k) (auto split: if_splits prod.splits)

lemma closestAnnot_None: "closestAnnot r rs t = (None, s) \<Longrightarrow> s = noAnnot"
  by (induction rs) (auto split: if_splits prod.splits)

lemma closestAnnot_bound:
  "snd (closestAnnot r rs t) \<noteq> noAnnot \<Longrightarrow> t \<le> 1 \<Longrightarrow> r < rowBound rs"
  by (induction rs) (auto split: if_splits prod.splits)

lemma setPipe_geo: "setPipeLeadingSpace p i v rs = Inr rs' \<Longrightarrow> map geo rs' = map geo rs"
  by (auto simp: setPipeLeadingSpace_def geo_def map_update nth_list_update
       split: option.splits if_splits intro!: nth_equalityI)

lemma setLine_geo: "setLineLeadingSpace p i v rs = Inr rs' \<Longrightarrow> map geo rs' = map geo rs"
  by (auto simp: setLineLeadingSpace_def geo_def map_update nth_list_update list_update_same_conv
       split: option.splits if_splits intro!: nth_equalityI)

lemma setSpace_geo: "setSpace r a rs = Inr rs' \<Longrightarrow> map geo rs' = map geo rs"
  by (auto simp: setSpace_def split: prod.splits sect.splits sum.splits dest: setPipe_geo setLine_geo)

lemma checkLine_geo:
  "checkLineAndSetSpace rw i a rs = Inr (b, a', rs') \<Longrightarrow> map geo rs' = map geo rs"
  by (auto simp: checkLineAndSetSpace_def Let_def
           split: prod.splits if_splits sum.splits sect.splits dest: setPipe_geo setLine_geo)

lemma checkLine_False_bound:
  "checkLineAndSetSpace rw i a rs = Inr (False, a', rs') \<Longrightarrow> rw + int i < rowBound rs"
  using closestAnnot_bound[of "rw + int i" rs 1]
  by (auto simp: checkLineAndSetSpace_def Let_def
           split: prod.splits if_splits sum.splits sect.splits)

lemma checkLinesLoop_geo:
  "checkLinesLoop rw i a rs = Inr (b, a', rs') \<Longrightarrow> map geo rs' = map geo rs"
proof (induction rw i a rs rule: checkLinesLoop.induct)
  case (1 rw i a rs)
  show ?case
  proof (cases "i < length (lines a)")
    case False
    with "1.prems" show ?thesis by (simp add: checkLinesLoop.simps)
  next
    case True
    with "1.prems" obtain f a1 rs1 where c: "checkLineAndSetSpace rw i a rs = Inr (f, a1, rs1)"
      by (auto simp: checkLinesLoop.simps[of rw i a rs] split: sum.splits)
    note g = checkLine_geo[OF c]
    show ?thesis
    proof (cases f)
      case False
      with True c "1.prems" have "rs' = rs1" by (simp add: checkLinesLoop.simps[of rw i a rs])
      with g show ?thesis by simp
    next
      case f: True
      with True c "1.prems" have "checkLinesLoop rw (Suc i) a1 rs1 = Inr (b, a', rs')"
        by (simp add: checkLinesLoop.simps[of rw i a rs])
      from "1.IH"[OF True c refl refl _ this] f g show ?thesis by simp
    qed
  qed
qed

lemma checkLinesLoop_False_bound:
  "checkLinesLoop rw i a rs = Inr (False, a', rs') \<Longrightarrow> rw < rowBound rs"
proof (induction rw i a rs rule: checkLinesLoop.induct)
  case (1 rw i a rs)
  show ?case
  proof (cases "i < length (lines a)")
    case False
    with "1.prems" show ?thesis by (simp add: checkLinesLoop.simps)
  next
    case True
    with "1.prems" obtain f a1 rs1 where c: "checkLineAndSetSpace rw i a rs = Inr (f, a1, rs1)"
      by (auto simp: checkLinesLoop.simps[of rw i a rs] split: sum.splits)
    show ?thesis
    proof (cases f)
      case False
      with c checkLine_False_bound[of rw i a rs a1 rs1] show ?thesis by simp
    next
      case f: True
      with True c "1.prems" have "checkLinesLoop rw (Suc i) a1 rs1 = Inr (False, a', rs')"
        by (simp add: checkLinesLoop.simps[of rw i a rs])
      from "1.IH"[OF True c refl refl _ this] f have "rw < rowBound rs1" by simp
      with rowBound_geo[OF checkLine_geo[OF c]] show ?thesis by simp
    qed
  qed
qed

termination setRowLoop
proof (relation "measure (\<lambda>(rw, a, rs). nat (rowBound rs - rw))", goal_cases)
  case 1
  show ?case by simp
next
  case (2 rw a rs x rs1 y f z a1 rs2)
  from 2 have b1: "rowBound rs1 = rowBound rs"
    by (auto split: if_splits dest!: setSpace_geo rowBound_geo)
  from 2 have c: "checkLinesLoop rw 0 a rs1 = Inr (False, a1, rs2)"
    by (simp add: checkLinesAndSetSpaces_def)
  from checkLinesLoop_False_bound[OF c] rowBound_geo[OF checkLinesLoop_geo[OF c]] b1
  show ?case by simp
qed

declare setRowLoop.simps [simp del]

lemma checkLineR_lines:
  "checkLineAndSetSpaceR rw i a rs = Inr (b, a', rs') \<Longrightarrow> lines a' = lines a"
  by (auto simp: checkLineAndSetSpaceR_def Let_def
           split: prod.splits if_splits sum.splits)

termination checkLinesLoopR
  by (relation "measure (\<lambda>(rw, i, a, rs). length (lines a) - i)")
     (auto dest: checkLineR_lines)

declare checkLinesLoopR.simps [simp del]

lemma rowBoundR_extent: "map extent rs = map extent rs' \<Longrightarrow> rowBoundR rs = rowBoundR rs'"
proof (induction rs arbitrary: rs')
  case Nil
  then show ?case by simp
next
  case (Cons a rs)
  then obtain b rs2 where rs': "rs' = b # rs2" by (cases rs') auto
  with Cons.prems have "extent a = extent b" and m: "map extent rs = map extent rs2" by auto
  then have "row a = row b" "length (lines a) = length (lines b)" by (auto simp: extent_def)
  with Cons.IH[OF m] rs' show ?case by simp
qed

lemma closestAnnotR_bound:
  "snd (closestAnnotR r rs t) \<noteq> noAnnotR \<Longrightarrow> t \<le> 1 \<Longrightarrow> r < rowBoundR rs"
  by (induction rs) (auto split: if_splits prod.splits)

lemma setPipeR_extent:
  "setPipeLeadingSpaceR p i v rs = Inr rs' \<Longrightarrow> map extent rs' = map extent rs"
  by (auto simp: setPipeLeadingSpaceR_def extent_def map_update nth_list_update
       split: option.splits if_splits intro!: nth_equalityI)

lemma setLineR_extent:
  "setLineLeadingSpaceR p i v rs = Inr rs' \<Longrightarrow> map extent rs' = map extent rs"
  by (auto simp: setLineLeadingSpaceR_def extent_def map_update nth_list_update
       split: option.splits if_splits intro!: nth_equalityI)

lemma setSpaceR_extent: "setSpaceR r a rs = Inr rs' \<Longrightarrow> map extent rs' = map extent rs"
  by (auto simp: setSpaceR_def split: prod.splits if_splits sum.splits
       dest: setPipeR_extent setLineR_extent)

lemma checkLineR_extent:
  "checkLineAndSetSpaceR rw i a rs = Inr (b, a', rs') \<Longrightarrow> map extent rs' = map extent rs"
  by (auto simp: checkLineAndSetSpaceR_def Let_def
           split: prod.splits if_splits sum.splits dest: setPipeR_extent setLineR_extent)

lemma checkLineR_False_bound:
  "checkLineAndSetSpaceR rw i a rs = Inr (False, a', rs') \<Longrightarrow> rw + int i < rowBoundR rs"
  using closestAnnotR_bound[of "rw + int i" rs 1]
  by (auto simp: checkLineAndSetSpaceR_def Let_def
           split: prod.splits if_splits sum.splits)

lemma checkLinesLoopR_bound:
  "checkLinesLoopR rw i a rs = Inr (b, a', rs') \<Longrightarrow>
     map extent rs' = map extent rs \<and> (\<not> b \<longrightarrow> rw < rowBoundR rs)"
proof (induction rw i a rs rule: checkLinesLoopR.induct)
  case (1 rw i a rs)
  show ?case
  proof (cases "i < length (lines a)")
    case False
    with "1.prems" show ?thesis by (simp add: checkLinesLoopR.simps)
  next
    case True
    with "1.prems" obtain f a1 rs1 where c: "checkLineAndSetSpaceR rw i a rs = Inr (f, a1, rs1)"
      by (auto simp: checkLinesLoopR.simps[of rw i a rs] split: sum.splits)
    note g = checkLineR_extent[OF c]
    show ?thesis
    proof (cases f)
      case False
      with True c "1.prems" have "rs' = rs1" "\<not> b"
        by (simp_all add: checkLinesLoopR.simps[of rw i a rs])
      with g c False checkLineR_False_bound[of rw i a rs a1 rs1] show ?thesis by simp
    next
      case f: True
      with True c "1.prems" have "checkLinesLoopR rw (Suc i) a1 rs1 = Inr (b, a', rs')"
        by (simp add: checkLinesLoopR.simps[of rw i a rs])
      from "1.IH"[OF True c refl refl _ this] f
      have "map extent rs' = map extent rs1 \<and> (\<not> b \<longrightarrow> rw < rowBoundR rs1)" by simp
      with g rowBoundR_extent[OF g] show ?thesis by simp
    qed
  qed
qed

termination setRowLoopR
proof (relation "measure (\<lambda>(rw, a, rs). nat (rowBoundR rs - rw))", goal_cases)
  case 1
  show ?case by simp
next
  case (2 rw a rs x rs1 y f z a1 rs2)
  from 2 have b1: "rowBoundR rs1 = rowBoundR rs"
    by (auto split: if_splits dest!: setSpaceR_extent rowBoundR_extent)
  from 2 have c: "checkLinesLoopR rw 0 a rs1 = Inr (False, a1, rs2)"
    by (simp add: checkLinesAndSetSpacesR_def)
  from checkLinesLoopR_bound[OF c] rowBoundR_extent[of rs2 rs1] b1
  show ?case by simp
qed

declare setRowLoopR.simps [simp del]

section \<open>What the placement computes\<close>

lemma closestAnnot_sect:
  "closestAnnot r rs t = (Some k, s) \<Longrightarrow>
     k < length rs \<and> s \<noteq> noAnnot \<and>
     (s = above \<longrightarrow> r < row (rs ! k)) \<and>
     (s = linesFirstTwo \<longrightarrow> row (rs ! k) \<le> r \<and> r < row (rs ! k) + int (length (lines (rs ! k))) \<and> r < 2) \<and>
     (s = linesAfterSecond \<longrightarrow> row (rs ! k) \<le> r \<and> r < row (rs ! k) + int (length (lines (rs ! k))) \<and> 2 \<le> r) \<and>
     (s = trailingSpaceLines \<longrightarrow> row (rs ! k) + int (length (lines (rs ! k))) \<le> r \<and> 0 < t)"
proof (induction rs arbitrary: k)
  case Nil
  then show ?case by simp
next
  case (Cons a rs)
  show ?case
  proof (cases "closestAnnot r rs t")
    case (Pair p s')
    with Cons.prems Cons.IH show ?thesis
      by (auto split: if_splits)
  qed
qed

lemma closestAnnot_noAnnot: "closestAnnot r rs t = (p, noAnnot) \<Longrightarrow> p = None"
  by (cases p) (auto dest: closestAnnot_sect)

lemma setPipe_ok:
  "k < length rs \<Longrightarrow> 0 \<le> i \<Longrightarrow> i < int (length (pipeLeadingSpaces (rs ! k))) \<Longrightarrow>
   \<exists>rs'. setPipeLeadingSpace (Some k) i v rs = Inr rs'"
  by (simp add: setPipeLeadingSpace_def)

lemma setLine_ok:
  "k < length rs \<Longrightarrow> 0 \<le> i \<Longrightarrow> i < int (length (lines (rs ! k))) \<Longrightarrow>
   \<exists>rs'. setLineLeadingSpace (Some k) i v rs = Inr rs'"
  by (simp add: setLineLeadingSpace_def)

lemma checkLine_spec:
  assumes w: "\<forall>x\<in>set rs. pipesOk x" and r0: "0 \<le> rw" and i: "i < length (lines a)"
  shows "\<exists>rs'. checkLineAndSetSpace rw i a rs =
           Inr (fitsLine rw i a rs,
                if fitsLine rw i a rs then a
                else a\<lparr>row := row a + 1, pipeLeadingSpaces := pipeLeadingSpaces a @ [Col a]\<rparr>,
                rs')"
proof (cases "closestAnnot (rw + int i) rs 1")
  case (Pair p s)
  show ?thesis
  proof (cases p)
    case None
    with Pair have "s = noAnnot" by (auto dest: closestAnnot_None)
    with Pair None show ?thesis
      by (simp add: checkLineAndSetSpace_def fitsLine_def)
  next
    case (Some k)
    note cs = closestAnnot_sect[OF Pair[unfolded Some]]
    then have k: "k < length rs" and sn: "s \<noteq> noAnnot" by simp_all
    from k w have pk: "pipesOk (rs ! k)" by simp
    define rem where "rem = Col (rs ! k) - Col a - (3 + length_l (lines a ! i))"
    show ?thesis
    proof (cases "fitsLine rw i a rs")
      case False
      with Pair Some have "rem < 0 \<or> ((s = above \<or> s = linesFirstTwo) \<and> rem < 2)"
        by (auto simp: fitsLine_def rem_def Let_def)
      with Pair Some k sn i False show ?thesis
        by (auto simp: checkLineAndSetSpace_def colOf_def Let_def rem_def)
    next
      case True
      with Pair Some have f: "\<not> (rem < 0 \<or> ((s = above \<or> s = linesFirstTwo) \<and> rem < 2))"
        by (auto simp: fitsLine_def rem_def Let_def)
      consider (a) "s = above" | (b) "s = linesFirstTwo" | (c) "s = linesAfterSecond"
        | (d) "s = trailingSpaceLines" using sn by (cases s) auto
      then show ?thesis
      proof cases
        case a
        with cs pk r0 have "0 \<le> rw + int i" "rw + int i < int (length (pipeLeadingSpaces (rs ! k)))"
          by (auto simp: pipesOk_def)
        from setPipe_ok[OF k this] obtain rs' where
          "setPipeLeadingSpace (Some k) (rw + int i) rem rs = Inr rs'" by blast
        with Pair Some k sn i True f a show ?thesis
          by (auto simp: checkLineAndSetSpace_def colOf_def Let_def rem_def)
      next
        case b
        with cs have "0 \<le> rw + int i - row (rs ! k)"
          "rw + int i - row (rs ! k) < int (length (lines (rs ! k)))" by auto
        from setLine_ok[OF k this] obtain rs' where
          "setLineLeadingSpace (Some k) (rw + int i - row (rs ! k)) rem rs = Inr rs'" by blast
        with Pair Some k sn i True f b show ?thesis
          by (auto simp: checkLineAndSetSpace_def colOf_def rowOf_def Let_def rem_def)
      next
        case c
        with cs have "0 \<le> rw + int i - row (rs ! k)"
          "rw + int i - row (rs ! k) < int (length (lines (rs ! k)))" by auto
        from setLine_ok[OF k this] obtain rs' where
          "setLineLeadingSpace (Some k) (rw + int i - row (rs ! k)) rem rs = Inr rs'" by blast
        with Pair Some k sn i True f c show ?thesis
          by (auto simp: checkLineAndSetSpace_def colOf_def rowOf_def Let_def rem_def)
      next
        case d
        show ?thesis
        proof (cases "closestAnnot (rw + int i) rs 0")
          case p2: (Pair p2 s2)
          show ?thesis
          proof (cases p2)
            case None
            with p2 have "s2 = noAnnot" by (auto dest: closestAnnot_None)
            with Pair Some k sn i True f d p2 show ?thesis
              by (auto simp: checkLineAndSetSpace_def colOf_def rowOf_def Let_def rem_def)
          next
            case (Some k2)
            note cs2 = closestAnnot_sect[OF p2[unfolded Some]]
            then have k2: "k2 < length rs" and sn2: "s2 \<noteq> noAnnot" "s2 \<noteq> trailingSpaceLines"
              by auto
            from k2 w have pk2: "pipesOk (rs ! k2)" by simp
            define v where "v = Col (rs ! k2) - Col a - (3 + length_l (lines a ! i))"
            show ?thesis
            proof (cases "s2 = above")
              case True
              with cs2 pk2 r0 have "0 \<le> rw + int i"
                "rw + int i < int (length (pipeLeadingSpaces (rs ! k2)))"
                by (auto simp: pipesOk_def)
              from setPipe_ok[OF k2 this] obtain rs' where
                "setPipeLeadingSpace (Some k2) (rw + int i) v rs = Inr rs'" by blast
              with Pair \<open>p = Some k\<close> k sn i \<open>fitsLine rw i a rs\<close> f d p2 Some k2 True show ?thesis
                by (auto simp: checkLineAndSetSpace_def colOf_def rowOf_def Let_def rem_def v_def)
            next
              case False
              with sn2 have "s2 = linesFirstTwo \<or> s2 = linesAfterSecond" by (cases s2) auto
              with cs2 have "0 \<le> rw + int i - row (rs ! k2)"
                "rw + int i - row (rs ! k2) < int (length (lines (rs ! k2)))" by auto
              from setLine_ok[OF k2 this] obtain rs' where
                "setLineLeadingSpace (Some k2) (rw + int i - row (rs ! k2)) v rs = Inr rs'" by blast
              with Pair \<open>p = Some k\<close> k sn i \<open>fitsLine rw i a rs\<close> f d p2 Some k2 False sn2 show ?thesis
                by (auto simp: checkLineAndSetSpace_def colOf_def rowOf_def Let_def rem_def v_def)
            qed
          qed
        qed
      qed
    qed
  qed
qed

lemma fitsLine_cong:
  assumes "map geo rs = map geo rs'" "Col a = Col a'"
    "map length_l (lines a) = map length_l (lines a')" "i < length (lines a)"
  shows "fitsLine rw i a rs = fitsLine rw i a' rs'"
proof -
  from assms(3) have len: "length (lines a) = length (lines a')" by (rule map_eq_imp_length_eq)
  from assms(3,4) len have l: "length_l (lines a ! i) = length_l (lines a' ! i)"
    by (metis nth_map)
  have c: "closestAnnot (rw + int i) rs 1 = closestAnnot (rw + int i) rs' 1"
    by (rule closestAnnot_geo[OF assms(1)])
  have "Col (rs ! k) = Col (rs' ! k)" if "k < length rs'" for k
  proof -
    from assms(1) have "length rs = length rs'" by (rule map_eq_imp_length_eq)
    with that assms(1) have "geo (rs ! k) = geo (rs' ! k)" by (metis nth_map)
    then show ?thesis by (simp add: geo_def)
  qed
  with c l assms(2) show ?thesis
    by (auto simp: fitsLine_def Let_def split: prod.splits option.splits dest: closestAnnot_sect)
qed

lemma annotFitsFrom_cong:
  assumes "map geo rs = map geo rs'" "Col a = Col a'"
    "map length_l (lines a) = map length_l (lines a')"
  shows "annotFitsFrom rw i a rs = annotFitsFrom rw i a' rs'"
proof -
  from assms(3) have len: "length (lines a) = length (lines a')" by (rule map_eq_imp_length_eq)
  show ?thesis unfolding annotFitsFrom_def len[symmetric]
    using fitsLine_cong[OF assms] by auto
qed

lemma pipesOk_geo:
  assumes "map geo rs = map geo rs'" "\<forall>x\<in>set rs. pipesOk x"
  shows "\<forall>x\<in>set rs'. pipesOk x"
proof
  fix x assume "x \<in> set rs'"
  then obtain k where k: "k < length rs'" "x = rs' ! k" by (auto simp: in_set_conv_nth)
  from assms(1) have "length rs = length rs'" by (rule map_eq_imp_length_eq)
  with k assms(1) have "geo (rs ! k) = geo x" "rs ! k \<in> set rs" by (metis nth_map, simp)
  with assms(2) show "pipesOk x" by (auto simp: pipesOk_def geo_def)
qed

lemma checkLinesLoop_spec:
  assumes "\<forall>x\<in>set rs. pipesOk x" "0 \<le> rw"
  shows "\<exists>rs'. checkLinesLoop rw i a rs =
            Inr (annotFitsFrom rw i a rs, if annotFitsFrom rw i a rs then a else rejected a, rs')
          \<and> map geo rs' = map geo rs"
  using assms
proof (induction "length (lines a) - i" arbitrary: i rs)
  case 0
  then have "\<not> i < length (lines a)" by simp
  then show ?case by (simp add: checkLinesLoop.simps annotFitsFrom_def)
next
  case (Suc n)
  then have i: "i < length (lines a)" by simp
  from checkLine_spec[OF Suc.prems i] obtain rs1 where
    c: "checkLineAndSetSpace rw i a rs =
          Inr (fitsLine rw i a rs, if fitsLine rw i a rs then a else rejected a, rs1)"
    by (auto simp: rejected_def)
  note g1 = checkLine_geo[OF c]
  show ?case
  proof (cases "fitsLine rw i a rs")
    case False
    with i have "\<not> annotFitsFrom rw i a rs" by (auto simp: annotFitsFrom_def)
    with c i False g1 show ?thesis by (simp add: checkLinesLoop.simps[of rw i a rs])
  next
    case True
    from Suc.hyps(2) have n: "n = length (lines a) - Suc i" by simp
    from Suc.hyps(1)[OF n pipesOk_geo[OF g1[symmetric] Suc.prems(1)] Suc.prems(2)]
    obtain rs' where r: "checkLinesLoop rw (Suc i) a rs1 =
        Inr (annotFitsFrom rw (Suc i) a rs1,
             if annotFitsFrom rw (Suc i) a rs1 then a else rejected a, rs')"
      and g2: "map geo rs' = map geo rs1" by blast
    have e1: "annotFitsFrom rw (Suc i) a rs1 = annotFitsFrom rw (Suc i) a rs"
      by (rule annotFitsFrom_cong[OF g1 refl refl])
    have e2: "annotFitsFrom rw i a rs = annotFitsFrom rw (Suc i) a rs"
    proof -
      have "{i ..< length (lines a)} = insert i {Suc i ..< length (lines a)}" using i by auto
      with True show ?thesis by (simp add: annotFitsFrom_def)
    qed
    from c i True r e1 e2 g1 g2 show ?thesis
      by (simp add: checkLinesLoop.simps[of rw i a rs])
  qed
qed

lemma setSpace_ok:
  assumes w: "\<forall>x\<in>set rs. pipesOk x" and r0: "0 \<le> r"
  shows "\<exists>rs'. setSpace r a rs = Inr rs'"
proof (cases "closestAnnot r rs 0")
  case (Pair p s)
  show ?thesis
  proof (cases p)
    case None
    with Pair have "s = noAnnot" by (auto dest: closestAnnot_None)
    with Pair show ?thesis by (simp add: setSpace_def)
  next
    case (Some k)
    note cs = closestAnnot_sect[OF Pair[unfolded Some]]
    then have k: "k < length rs" by simp
    with w have pk: "pipesOk (rs ! k)" by simp
    show ?thesis
    proof (cases s)
      case above
      with cs pk r0 have "0 \<le> r" "r < int (length (pipeLeadingSpaces (rs ! k)))"
        by (auto simp: pipesOk_def)
      from setPipe_ok[OF k this] Pair Some above k show ?thesis
        by (simp add: setSpace_def colOf_def)
    next
      case linesFirstTwo
      with cs have "0 \<le> r - row (rs ! k)" "r - row (rs ! k) < int (length (lines (rs ! k)))"
        by auto
      from setLine_ok[OF k this] Pair Some linesFirstTwo k show ?thesis
        by (simp add: setSpace_def colOf_def rowOf_def)
    next
      case linesAfterSecond
      with cs have "0 \<le> r - row (rs ! k)" "r - row (rs ! k) < int (length (lines (rs ! k)))"
        by auto
      from setLine_ok[OF k this] Pair Some linesAfterSecond k show ?thesis
        by (simp add: setSpace_def colOf_def rowOf_def)
    next
      case trailingSpaceLines
      with Pair show ?thesis by (simp add: setSpace_def)
    next
      case noAnnot
      with Pair show ?thesis by (simp add: setSpace_def)
    qed
  qed
qed

lemma annotFitsFrom_rejected:
  "annotFitsFrom rw i (rejected a) rs = annotFitsFrom rw i a rs"
  by (rule annotFitsFrom_cong) (simp_all add: rejected_def)

lemma not_fits_bound:
  assumes "\<not> annotFitsFrom rw i a rs"
  shows "rw < rowBound rs"
proof -
  from assms obtain j where j: "\<not> fitsLine rw j a rs" by (auto simp: annotFitsFrom_def)
  then have "snd (closestAnnot (rw + int j) rs 1) \<noteq> noAnnot"
    by (auto simp: fitsLine_def split: prod.splits option.splits dest: closestAnnot_sect)
  from closestAnnot_bound[OF this] show ?thesis by simp
qed

lemma setRowLoop_spec:
  assumes "\<forall>x\<in>set rs. pipesOk x" "0 \<le> rw"
  shows "\<exists>n rs'. setRowLoop rw a rs = Inr ((rejected ^^ n) a, rs')
           \<and> map geo rs' = map geo rs
           \<and> annotFitsFrom (rw + int n) 0 a rs
           \<and> (\<forall>m<n. \<not> annotFitsFrom (rw + int m) 0 a rs)"
  using assms
proof (induction "nat (rowBound rs - rw)" arbitrary: rw a rs rule: less_induct)
  case less
  define rs0 where "rs0 = (if rw - 1 \<noteq> - 1 then setSpace (rw - 1) a rs else Inr rs)"
  have "\<exists>rs1. rs0 = Inr rs1 \<and> map geo rs1 = map geo rs"
  proof (cases "rw - 1 \<noteq> - 1")
    case True
    with less.prems have "0 \<le> rw - 1" by simp
    from setSpace_ok[OF less.prems(1) this] obtain rs1 where
      s: "setSpace (rw - 1) a rs = Inr rs1" by blast
    with setSpace_geo[OF s] True show ?thesis by (simp add: rs0_def)
  next
    case False
    then show ?thesis by (simp add: rs0_def)
  qed
  then obtain rs1 where rs1: "rs0 = Inr rs1" and g1: "map geo rs1 = map geo rs" by blast
  note p1 = pipesOk_geo[OF g1[symmetric] less.prems(1)]
  from checkLinesLoop_spec[OF p1 less.prems(2)] obtain rs2 where
    c: "checkLinesLoop rw 0 a rs1 =
          Inr (annotFitsFrom rw 0 a rs1, if annotFitsFrom rw 0 a rs1 then a else rejected a, rs2)"
    and g2: "map geo rs2 = map geo rs1" by blast
  have e: "annotFitsFrom rw 0 a rs1 = annotFitsFrom rw 0 a rs"
    by (rule annotFitsFrom_cong[OF g1 refl refl])
  have u: "setRowLoop rw a rs =
     (case rs0 of
        Inl e \<Rightarrow> Inl e
      | Inr rs' \<Rightarrow>
          (case checkLinesLoop rw 0 a rs' of
             Inl e \<Rightarrow> Inl e
           | Inr (annotFits, a', rs'') \<Rightarrow>
               if annotFits then Inr (a', rs'') else setRowLoop (rw + 1) a' rs''))"
    unfolding rs0_def by (subst setRowLoop.simps) (simp only: Let_def checkLinesAndSetSpaces_def)
  show ?case
  proof (cases "annotFitsFrom rw 0 a rs")
    case True
    with c e rs1 have "setRowLoop rw a rs = Inr ((rejected ^^ 0) a, rs2)"
      by (simp add: u)
    moreover from g1 g2 have "map geo rs2 = map geo rs" by simp
    ultimately show ?thesis using True
      by (intro exI[of _ 0] exI[of _ rs2]) simp
  next
    case False
    with c e rs1 have step: "setRowLoop rw a rs = setRowLoop (rw + 1) (rejected a) rs2"
      by (simp add: u)
    from g1 g2 have g: "map geo rs2 = map geo rs" by simp
    from not_fits_bound[OF False] rowBound_geo[OF g]
    have m: "nat (rowBound rs2 - (rw + 1)) < nat (rowBound rs - rw)" by simp
    from less.hyps[OF m pipesOk_geo[OF g[symmetric] less.prems(1)], of "rejected a"] less.prems(2)
    obtain n rs' where r: "setRowLoop (rw + 1) (rejected a) rs2 = Inr ((rejected ^^ n) (rejected a), rs')"
      and g3: "map geo rs' = map geo rs2"
      and f: "annotFitsFrom (rw + 1 + int n) 0 (rejected a) rs2"
      and nf: "\<forall>m<n. \<not> annotFitsFrom (rw + 1 + int m) 0 (rejected a) rs2"
      by auto
    have conv: "annotFitsFrom q 0 (rejected a) rs2 = annotFitsFrom q 0 a rs" for q
      by (rule annotFitsFrom_cong[OF g]) (simp_all add: rejected_def)
    have "setRowLoop rw a rs = Inr ((rejected ^^ Suc n) a, rs')"
      using step r by (simp add: funpow_swap1)
    moreover have "map geo rs' = map geo rs" using g3 g by simp
    moreover have "annotFitsFrom (rw + int (Suc n)) 0 a rs"
      using f conv by (simp add: add.commute add.left_commute)
    moreover have "\<forall>m<Suc n. \<not> annotFitsFrom (rw + int m) 0 a rs"
    proof (intro allI impI)
      fix m assume "m < Suc n"
      show "\<not> annotFitsFrom (rw + int m) 0 a rs"
      proof (cases m)
        case 0
        with False show ?thesis by simp
      next
        case (Suc m')
        with \<open>m < Suc n\<close> nf have "\<not> annotFitsFrom (rw + 1 + int m') 0 (rejected a) rs2" by simp
        with conv Suc show ?thesis by (simp add: add.commute add.left_commute)
      qed
    qed
    ultimately show ?thesis by blast
  qed
qed

lemma rejected_funpow:
  "(rejected ^^ n) a = a\<lparr>row := row a + int n,
      pipeLeadingSpaces := pipeLeadingSpaces a @ replicate n (Col a)\<rparr>"
proof (induction n)
  case 0
  show ?case by simp
next
  case (Suc n)
  then show ?case by (simp add: rejected_def replicate_append_same)
qed

lemma geo_shape: "geo a = geo b \<Longrightarrow> shape a = shape b"
  by (simp add: geo_def shape_def)

lemma annotFitsFrom_shape:
  assumes "map geo rs = map geo rs'" "shape a = shape a'"
  shows "annotFitsFrom rw i a rs = annotFitsFrom rw i a' rs'"
  using assms(2) by (intro annotFitsFrom_cong[OF assms(1)]) (simp_all add: shape_def)

lemma map_drop_eqI:
  assumes "length xs = length ys" "\<forall>j<length xs. k \<le> j \<longrightarrow> f (xs ! j) = f (ys ! j)"
  shows "map f (drop k xs) = map f (drop k ys)"
proof (rule nth_equalityI)
  show "length (map f (drop k xs)) = length (map f (drop k ys))" using assms(1) by simp
next
  fix i assume "i < length (map f (drop k xs))"
  then have i: "k + i < length xs" by simp
  with assms show "map f (drop k xs) ! i = map f (drop k ys) ! i" by simp
qed

lemma map_eq_nth: "map f xs = map f ys \<Longrightarrow> i < length xs \<Longrightarrow> f (xs ! i) = f (ys ! i)"
  by (metis length_map nth_map)

lemma setRows_spec:
  assumes "k \<le> length annots - 1" "\<forall>x\<in>set annots. pipesOk x"
  shows "\<exists>fin. setRows k annots = Inr fin \<and> length fin = length annots
     \<and> (\<forall>j<length annots. shape (fin ! j) = shape (annots ! j))
     \<and> (\<forall>j<length annots. k \<le> j \<longrightarrow> geo (fin ! j) = geo (annots ! j))
     \<and> (\<forall>x\<in>set fin. pipesOk x)
     \<and> (\<forall>j<k. \<exists>n. row (fin ! j) = row (annots ! j) + int n
            \<and> annotFitsFrom (int n) 0 (fin ! j) (drop (Suc j) fin)
            \<and> (\<forall>m<n. \<not> annotFitsFrom (int m) 0 (fin ! j) (drop (Suc j) fin)))"
  using assms
proof (induction k arbitrary: annots)
  case 0
  then show ?case by simp
next
  case (Suc k)
  define a where "a = annots ! k"
  define rs where "rs = drop (Suc k) annots"
  from Suc.prems(1) have kl: "Suc k < length annots" by simp
  have prs: "\<forall>x\<in>set rs. pipesOk x"
    using Suc.prems(2) by (auto simp: rs_def dest: in_set_dropD)
  from setRowLoop_spec[OF prs, of 0 a] obtain n rs' where
    sr: "setRowLoop 0 a rs = Inr ((rejected ^^ n) a, rs')"
    and g: "map geo rs' = map geo rs"
    and f: "annotFitsFrom (int n) 0 a rs"
    and nf: "\<forall>m<n. \<not> annotFitsFrom (int m) 0 a rs"
    by auto
  define a' where "a' = (rejected ^^ n) a"
  define annots1 where "annots1 = take k annots @ a' # rs'"
  from g have lrs: "length rs' = length rs" by (rule map_eq_imp_length_eq)
  have l1: "length annots1 = length annots"
    using kl lrs by (simp add: annots1_def rs_def)
  have n_lt: "annots1 ! j = annots ! j" if "j < k" for j
    using that kl by (simp add: annots1_def nth_append)
  have n_eq: "annots1 ! k = a'"
    using kl by (simp add: annots1_def nth_append)
  have n_gt: "geo (annots1 ! j) = geo (annots ! j)" if "k < j" "j < length annots" for j
  proof -
    from that kl have "annots1 ! j = rs' ! (j - Suc k)"
      by (simp add: annots1_def nth_append)
    moreover from that lrs have "j - Suc k < length rs'" by (simp add: rs_def)
    ultimately have "geo (annots1 ! j) = geo (rs ! (j - Suc k))"
      using map_eq_nth[OF g] by simp
    with that show ?thesis by (simp add: rs_def)
  qed
  have d1: "drop (Suc k) annots1 = rs'"
    using kl by (simp add: annots1_def)
  have ra': "row a' = row a + int n" "shape a' = shape a"
    "length (pipeLeadingSpaces a') = length (pipeLeadingSpaces a) + n"
    by (simp_all add: a'_def rejected_funpow shape_def)
  have pa: "pipesOk a" using Suc.prems(2) kl by (simp add: a_def)
  have p1: "\<forall>x\<in>set annots1. pipesOk x"
  proof
    fix x assume "x \<in> set annots1"
    then consider "x \<in> set (take k annots)" | "x = a'" | "x \<in> set rs'"
      by (auto simp: annots1_def)
    then show "pipesOk x"
    proof cases
      case 1
      with Suc.prems(2) show ?thesis by (auto dest: in_set_takeD)
    next
      case 2
      with pa ra' show ?thesis by (simp add: pipesOk_def)
    next
      case 3
      with pipesOk_geo[OF g[symmetric] prs] show ?thesis by simp
    qed
  qed
  from kl l1 have "k \<le> length annots1 - 1" by simp
  from Suc.IH[OF this p1] obtain fin where
    s: "setRows k annots1 = Inr fin" and lf: "length fin = length annots1"
    and sh: "\<forall>j<length annots1. shape (fin ! j) = shape (annots1 ! j)"
    and ge: "\<forall>j<length annots1. k \<le> j \<longrightarrow> geo (fin ! j) = geo (annots1 ! j)"
    and pf: "\<forall>x\<in>set fin. pipesOk x"
    and pl: "\<forall>j<k. \<exists>n. row (fin ! j) = row (annots1 ! j) + int n
            \<and> annotFitsFrom (int n) 0 (fin ! j) (drop (Suc j) fin)
            \<and> (\<forall>m<n. \<not> annotFitsFrom (int m) 0 (fin ! j) (drop (Suc j) fin))"
    by blast
  have run: "setRows (Suc k) annots = Inr fin"
    using sr s by (simp add: setRow_def a_def rs_def a'_def annots1_def)
  have sh': "\<forall>j<length annots. shape (fin ! j) = shape (annots ! j)"
  proof (intro allI impI)
    fix j assume j: "j < length annots"
    consider "j < k" | "j = k" | "k < j" by linarith
    then show "shape (fin ! j) = shape (annots ! j)"
    proof cases
      case 1
      with sh j l1 n_lt show ?thesis by simp
    next
      case 2
      with sh j l1 n_eq ra' show ?thesis by (simp add: a_def)
    next
      case 3
      with sh j l1 geo_shape[OF n_gt[OF 3 j]] show ?thesis by simp
    qed
  qed
  have ge': "\<forall>j<length annots. Suc k \<le> j \<longrightarrow> geo (fin ! j) = geo (annots ! j)"
    using ge l1 n_gt by auto
  have gd: "map geo (drop (Suc k) fin) = map geo rs"
  proof -
    have "map geo (drop (Suc k) fin) = map geo (drop (Suc k) annots1)"
      by (rule map_drop_eqI) (use lf ge in auto)
    with d1 g show ?thesis by simp
  qed
  have fk: "geo (fin ! k) = geo a'" using ge kl l1 n_eq by auto
  have shk: "shape (fin ! k) = shape a" using geo_shape[OF fk] ra' by simp
  have pl': "\<exists>n. row (fin ! j) = row (annots ! j) + int n
            \<and> annotFitsFrom (int n) 0 (fin ! j) (drop (Suc j) fin)
            \<and> (\<forall>m<n. \<not> annotFitsFrom (int m) 0 (fin ! j) (drop (Suc j) fin))"
    if "j < Suc k" for j
  proof (cases "j = k")
    case False
    with that have "j < k" by simp
    with pl n_lt show ?thesis by simp
  next
    case True
    have conv: "annotFitsFrom q 0 (fin ! k) (drop (Suc k) fin) = annotFitsFrom q 0 a rs" for q
      by (rule annotFitsFrom_shape[OF gd shk])
    from fk ra' have "row (fin ! k) = row (annots ! k) + int n"
      by (simp add: geo_def a_def)
    with f nf conv True show ?thesis by auto
  qed
  from run lf l1 sh' ge' pf pl' show ?case by auto
qed

lemma place_normalized:
  "place sw annots = setRows (length (normalized sw annots) - 1) (normalized sw annots)"
  by (simp add: place_def normalized_def Let_def)

lemma fitResult_eq:
  assumes "\<forall>x\<in>set rs. pipesOk x" "0 \<le> rw"
  shows "fitResult rw a rs = Inr (annotFitsFrom rw 0 a rs)"
  using checkLinesLoop_spec[OF assms, of 0 a]
  by (auto simp: fitResult_def checkLinesAndSetSpaces_def)

lemma CompactFunc_subset: "set (CompactFunc eq xs) \<subseteq> set xs"
  by (induction eq xs rule: CompactFunc.induct) (auto split: if_splits)

lemma CompactFunc_Nil: "CompactFunc eq xs = [] \<longleftrightarrow> xs = []"
  by (induction eq xs rule: CompactFunc.induct) (auto split: if_splits)

lemma initLines_fresh:
  "fresh a \<Longrightarrow> pipesOk (initLines sw a) \<and> row (initLines sw a) = 0"
  by (simp add: fresh_def pipesOk_def initLines_def)

lemma normalized_fresh:
  assumes "\<forall>a\<in>set annots. fresh a"
  shows "\<forall>x\<in>set (normalized sw annots). pipesOk x \<and> row x = 0"
  using assms CompactFunc_subset[of "\<lambda>a1 a2. Col a1 = Col a2" annots]
  by (auto simp: normalized_def SortFunc_def initLines_fresh)

lemma normalized_Nil: "normalized sw annots = [] \<longleftrightarrow> annots = []"
proof -
  have "length (normalized sw annots)
        = length (CompactFunc (\<lambda>a1 a2. Col a1 = Col a2) annots)"
    by (simp add: normalized_def SortFunc_def)
  then show ?thesis using CompactFunc_Nil[of "\<lambda>a1 a2. Col a1 = Col a2" annots]
    by (metis length_0_conv)
qed

lemma normalized_sorted: "sorted (map Col (normalized sw annots))"
proof -
  have "map Col (normalized sw annots)
        = map Col (SortFunc (CompactFunc (\<lambda>a1 a2. Col a1 = Col a2) annots))"
    by (simp add: normalized_def initLines_def comp_def)
  then show ?thesis by (simp add: SortFunc_def)
qed

lemma annotFitsFrom_Nil: "annotFitsFrom rw i a []"
  by (simp add: annotFitsFrom_def fitsLine_def)

lemma place_spec:
  assumes "\<forall>a\<in>set annots. fresh a"
  shows "\<exists>fin. place sw annots = Inr fin \<and> length fin = length (normalized sw annots)
     \<and> (\<forall>j<length fin. shape (fin ! j) = shape (normalized sw annots ! j))
     \<and> (\<forall>x\<in>set fin. pipesOk x)
     \<and> (\<forall>j<length fin. 0 \<le> row (fin ! j)
            \<and> annotFitsFrom (row (fin ! j)) 0 (fin ! j) (drop (Suc j) fin)
            \<and> (\<forall>r. 0 \<le> r \<and> r < row (fin ! j)
                   \<longrightarrow> \<not> annotFitsFrom r 0 (fin ! j) (drop (Suc j) fin)))
     \<and> (fin \<noteq> [] \<longrightarrow> row (last fin) = 0)"
proof -
  define ns where "ns = normalized sw annots"
  note nf = normalized_fresh[OF assms, of sw, folded ns_def]
  then have p: "\<forall>x\<in>set ns. pipesOk x" by simp
  from setRows_spec[OF le_refl p] obtain fin where
    s: "setRows (length ns - 1) ns = Inr fin" and lf: "length fin = length ns"
    and sh: "\<forall>j<length ns. shape (fin ! j) = shape (ns ! j)"
    and ge: "\<forall>j<length ns. length ns - 1 \<le> j \<longrightarrow> geo (fin ! j) = geo (ns ! j)"
    and pf: "\<forall>x\<in>set fin. pipesOk x"
    and pl: "\<forall>j<length ns - 1. \<exists>n. row (fin ! j) = row (ns ! j) + int n
            \<and> annotFitsFrom (int n) 0 (fin ! j) (drop (Suc j) fin)
            \<and> (\<forall>m<n. \<not> annotFitsFrom (int m) 0 (fin ! j) (drop (Suc j) fin))"
    by blast
  have last0: "row (fin ! (length ns - 1)) = 0" if "ns \<noteq> []"
  proof -
    from that have l: "length ns - 1 < length ns" by simp
    with ge have "geo (fin ! (length ns - 1)) = geo (ns ! (length ns - 1))" by simp
    moreover from l nf have "row (ns ! (length ns - 1)) = 0" by simp
    ultimately show ?thesis by (simp add: geo_def)
  qed
  have each: "0 \<le> row (fin ! j)
            \<and> annotFitsFrom (row (fin ! j)) 0 (fin ! j) (drop (Suc j) fin)
            \<and> (\<forall>r. 0 \<le> r \<and> r < row (fin ! j)
                   \<longrightarrow> \<not> annotFitsFrom r 0 (fin ! j) (drop (Suc j) fin))"
    if j: "j < length fin" for j
  proof (cases "j < length ns - 1")
    case True
    with pl obtain n where n: "row (fin ! j) = row (ns ! j) + int n"
      "annotFitsFrom (int n) 0 (fin ! j) (drop (Suc j) fin)"
      "\<forall>m<n. \<not> annotFitsFrom (int m) 0 (fin ! j) (drop (Suc j) fin)" by blast
    from j lf nf have "row (ns ! j) = 0" by simp
    with n(1) have r: "row (fin ! j) = int n" by simp
    have "\<not> annotFitsFrom r 0 (fin ! j) (drop (Suc j) fin)" if "0 \<le> r" "r < int n" for r
    proof -
      from that have "nat r < n" "r = int (nat r)" by simp_all
      with n(3) show ?thesis by metis
    qed
    with r n(2) show ?thesis by simp
  next
    case False
    with j lf have jl: "j = length ns - 1" "ns \<noteq> []" by auto
    with lf have "drop (Suc j) fin = []" by simp
    with last0[OF jl(2)] jl(1) show ?thesis by (simp add: annotFitsFrom_Nil)
  qed
  have "row (last fin) = 0" if "fin \<noteq> []"
  proof -
    from that lf have "ns \<noteq> []" by auto
    from last0[OF this] that lf show ?thesis by (simp add: last_conv_nth)
  qed
  with s lf sh pf each show ?thesis
    unfolding place_normalized ns_def[symmetric] by auto
qed

section \<open>Rendering and validation\<close>

lemma Write_place:
  "annots \<noteq> [] \<Longrightarrow> place sw annots = Inr fin \<Longrightarrow> Write sw annots = write' fin"
  by (simp add: Write_def CompactFunc_Nil)

lemma Repeat_space: "0 \<le> n \<Longrightarrow> Repeat '' '' n = Inr (replicate (nat n) (CHR '' ''))"
proof -
  have "concat (replicate k '' '') = replicate k (CHR '' '')" for k
    by (induction k) simp_all
  then show "0 \<le> n \<Longrightarrow> Repeat '' '' n = Inr (replicate (nat n) (CHR '' ''))"
    by (simp add: Repeat_def)
qed

lemma CompactFunc_distinct:
  "distinct (map f xs) \<Longrightarrow> CompactFunc (\<lambda>a b. f a = f b) xs = xs"
  by (induction "\<lambda>a b. f a = f b" xs rule: CompactFunc.induct) auto

lemma filter_key_distinct:
  "distinct (map f zs) \<Longrightarrow> k \<in> set zs \<Longrightarrow> filter (\<lambda>x. f k = f x) zs = [k]"
proof (induction zs)
  case Nil
  then show ?case by simp
next
  case (Cons z zs)
  show ?case
  proof (cases "k = z")
    case True
    with Cons.prems have "\<forall>x\<in>set zs. f z \<noteq> f x" by auto
    then have "filter (\<lambda>x. f z = f x) zs = []" by (simp add: filter_empty_conv)
    with True show ?thesis by simp
  next
    case False
    with Cons.prems have kz: "k \<in> set zs" by simp
    from Cons.prems have "f z \<notin> f ` set zs" by simp
    with kz have "f k \<noteq> f z" by (metis imageI)
    note kz this
    with Cons show ?thesis by simp
  qed
qed

lemma sort_key_perm_distinct:
  assumes "mset ys = mset xs" "distinct (map f xs)"
  shows "sort_key f ys = sort_key f xs"
proof -
  from assms(1) have "mset (map f ys) = mset (map f xs)" by simp
  with assms(2) have dy: "distinct (map f ys)" by (metis mset_eq_imp_distinct_iff)
  have ds: "distinct (map f (sort_key f ys))"
    using dy by (metis distinct_map distinct_sort set_sort)
  show ?thesis
  proof (rule properties_for_sort_key[symmetric])
    show "mset (sort_key f ys) = mset xs" using assms(1) by simp
  next
    fix k assume k: "k \<in> set (sort_key f ys)"
    then have "k \<in> set xs" using assms(1) by (metis mset_eq_setD set_sort)
    with filter_key_distinct[OF ds k] filter_key_distinct[OF assms(2)]
    show "filter (\<lambda>x. f k = f x) (sort_key f ys) = filter (\<lambda>x. f k = f x) xs" by simp
  next
    show "sorted (map f (sort_key f ys))" by simp
  qed
qed

lemma createLines_fields [simp]:
  "Col (createLines sw a) = Col a" "ColEnd (createLines sw a) = ColEnd a"
  by (simp_all add: createLines_def)

lemma checkLoop_first_invalid:
  assumes "i < length xs" "rangeInvalid (xs ! i)"
    and "\<forall>j<i. \<not> rangeInvalid (xs ! j)"
    and "\<forall>j<i. 0 < j \<longrightarrow> \<not> rangeOverlap (xs ! (j - 1)) (xs ! j)"
    and "0 < i \<longrightarrow> (case prev of None \<Rightarrow> True | Some p \<Rightarrow> \<not> (0 < n \<and> rangeOverlap p (xs ! 0)))"
  shows "checkLoop sw n prev xs
           = Inl (ColExceedsColEndError (int (n + i) + 1) (Col (xs ! i)) (ColEnd (xs ! i)))"
  using assms
proof (induction xs arbitrary: i n prev)
  case Nil
  then show ?case by simp
next
  case (Cons a xs)
  show ?case
  proof (cases i)
    case 0
    with Cons.prems(2) show ?thesis by (simp add: rangeInvalid_def)
  next
    case (Suc i')
    with Cons.prems have a: "\<not> rangeInvalid a" by auto
    from Suc Cons.prems(5) have pv: "case prev of None \<Rightarrow> True
        | Some p \<Rightarrow> \<not> (0 < n \<and> rangeOverlap p a)" by (cases prev) simp_all
    define a1 where
      "a1 = a\<lparr>pipeColIdx := (if ColEnd a \<noteq> 0 then quot (Col a + ColEnd a) 2 else Col a)\<rparr>"
    have f: "Col a1 = Col a" "ColEnd a1 = ColEnd a" by (simp_all add: a1_def)
    have i': "i' < length xs" "rangeInvalid (xs ! i')" using Cons.prems(1,2) Suc by simp_all
    have n1: "\<forall>j<i'. \<not> rangeInvalid (xs ! j)" using Cons.prems(3) Suc by auto
    have n2: "\<forall>j<i'. 0 < j \<longrightarrow> \<not> rangeOverlap (xs ! (j - 1)) (xs ! j)"
    proof (intro allI impI)
      fix j assume j: "j < i'" "0 < j"
      with Cons.prems(4) Suc have "\<not> rangeOverlap ((a # xs) ! (Suc j - 1)) ((a # xs) ! Suc j)"
        by (metis Suc_less_eq zero_less_Suc)
      with j show "\<not> rangeOverlap (xs ! (j - 1)) (xs ! j)" by (cases j) simp_all
    qed
    have n3: "0 < i' \<longrightarrow> (case Some (createLines sw a1) of None \<Rightarrow> True
        | Some p \<Rightarrow> \<not> (0 < Suc n \<and> rangeOverlap p (xs ! 0)))"
    proof
      assume "0 < i'"
      with Cons.prems(4) Suc have "\<not> rangeOverlap ((a # xs) ! (Suc 0 - 1)) ((a # xs) ! Suc 0)"
        by (metis Suc_less_eq zero_less_Suc)
      then show "case Some (createLines sw a1) of None \<Rightarrow> True
        | Some p \<Rightarrow> \<not> (0 < Suc n \<and> rangeOverlap p (xs ! 0))"
        by (simp add: rangeOverlap_def f)
    qed
    from Cons.IH[OF i' n1 n2 n3]
    have r: "checkLoop sw (Suc n) (Some (createLines sw a1)) xs
       = Inl (ColExceedsColEndError (int (Suc n + i') + 1) (Col (xs ! i')) (ColEnd (xs ! i')))" .
    from a pv r Suc show ?thesis
      by (auto simp: rangeInvalid_def rangeOverlap_def Let_def a1_def[symmetric] f
            split: option.splits)
  qed
qed

lemma length_concat_dash: "length (concat (replicate n dash)) = 3 * n"
  by (induction n) (simp_all add: dash_def)

lemma bracket_width:
  assumes "c \<le> m" "m < e"
  shows "length (bracket c m e) = 3 * nat (e - c + 1)"
proof (cases "c = m")
  case True
  with assms show ?thesis
    by (simp add: bracket_def teeRight_def cornerRight_def length_concat_dash)
next
  case False
  with assms have "nat (m - c - 1) + nat (e - m - 1) + 3 = nat (e - c + 1)" by linarith
  with False show ?thesis
    by (simp add: bracket_def cornerLeft_def teeDown_def cornerRight_def length_concat_dash)
qed

lemma arrowOrRangeLoop_range:
  assumes "ColEnd a \<noteq> 0" "w \<le> Col a" "Col a \<le> pipeColIdx a" "pipeColIdx a < ColEnd a"
  shows "arrowOrRangeLoop (a # as) w b
           = arrowOrRangeLoop as (ColEnd a + 1)
               (b @ replicate (nat (Col a - w)) (CHR '' '') @ bracket (Col a) (pipeColIdx a) (ColEnd a))"
  using assms by (simp add: Repeat_space Repeat_def bracket_def)

lemma quot_2: "0 \<le> x \<Longrightarrow> quot x 2 = x div 2"
  by (cases "x = 0") (simp_all add: quot_def)

text \<open>
  For comparison with C1: in the revision with ranged annotations the second line of a
  right annotation has a section of its own, \<^verbatim>\<open>lineTwo\<close>, with the shift 3 and the space 4.
\<close>

lemma closestAnnotR_lineTwo:
  "closestAnnotR r rs t = (Some k, lineTwo) \<Longrightarrow>
     k < length rs \<and> row (rs ! k) + 1 = r \<and> r < row (rs ! k) + int (length (lines (rs ! k)))"
proof (induction rs arbitrary: k)
  case Nil
  then show ?case by simp
next
  case (Cons a rs)
  show ?case
  proof (cases "closestAnnotR r rs t")
    case (Pair p s')
    with Cons.prems Cons.IH show ?thesis
      by (auto split: if_splits)
  qed
qed

lemma lineTwo_in_ranged_revision:
  assumes c: "closestAnnotR (rw + int i) rs 1 = (Some k, lineTwo)" and i: "i < length (lines a)"
  shows "let remaining = pipeColIdx (rs ! k) + 3 - pipeColIdx a - (3 + length_l (lines a ! i))
         in (4 \<le> remaining \<longrightarrow>
               checkLineAndSetSpaceR rw i a rs
                 = Inr (True, a,
                        rs[k := (rs ! k)\<lparr>lines := (lines (rs ! k))
                             [1 := (lines (rs ! k) ! 1)\<lparr>leadingSpaces := remaining\<rparr>]\<rparr>]))
          \<and> (remaining < 4 \<longrightarrow>
               checkLineAndSetSpaceR rw i a rs
                 = Inr (False,
                        a\<lparr>row := row a + 1,
                          pipeLeadingSpaces := pipeLeadingSpaces a @ [pipeColIdx a]\<rparr>,
                        rs))"
proof -
  from closestAnnotR_lineTwo[OF c] have k: "k < length rs"
    and ix: "rw + int i - row (rs ! k) = 1" and l: "1 < length (lines (rs ! k))" by auto
  from c i k ix l show ?thesis
    by (auto simp: checkLineAndSetSpaceR_def pipeColIdxOf_def rowOfR_def
          setLineLeadingSpaceR_def Let_def)
qed

lemma lineTwo_example:
  "WriteR asciiWidth [newAnnotR 0 0 [''a'', ''line2''], newAnnotR 9 0 [''line1'', ''line2'']]
     = (arrow @ ''        '' @ arrow @ newline
        @ connector @ ''a'' @ ''     '' @ connector @ ''line1'' @ newline
        @ ''   line2'' @ ''    '' @ ''line2'' @ newline, None)"
  by code_simp

section \<open>Tests of the repository on the models\<close>

text \<open>
  Four tests of \<^verbatim>\<open>src/annot_test.go\<close>, evaluated on the two models: \<^verbatim>\<open>complex annotation
  arrangement\<close> and \<^verbatim>\<open>first annotation uses indentation space of second annotation\<close> of its
  first document on \<^verbatim>\<open>src/annot.go\<close>, and \<^verbatim>\<open>utilise every space to the limit\<close> and
  \<^verbatim>\<open>mix ranged and arrowed annotation\<close> of its second document on the revision with ranged
  annotations.
\<close>

lemma test_complex_annotation_arrangement:
  "Write asciiWidth
     [newAnnot 0 [''line1'', ''line2'', ''line3'', ''line4'', ''line5'', ''line6'', ''line7'', ''line8verylongverylongverylong''],
      newAnnot 10 [''line1''],
      newAnnot 20 [''line1''],
      newAnnot 25 [''line1'', ''line2''],
      newAnnot 35 [''line1long'', ''line2'', ''line3''],
      newAnnot 40 [''line1'', ''line2'', ''line3'', ''line4'']]
   = (arrow @ ''         '' @ arrow @ ''         '' @ arrow @ ''    '' @ arrow @ ''         '' @ arrow @ ''    '' @ arrow @ newline
      @ connector @ ''line1  '' @ connector @ ''line1  '' @ pipe @ ''    '' @ connector @ ''line1  '' @ pipe @ ''    '' @ connector @ ''line1'' @ newline
      @ ''   line2            '' @ pipe @ ''       line2  '' @ pipe @ ''       line2'' @ newline
      @ ''   line3            '' @ pipe @ ''              '' @ pipe @ ''       line3'' @ newline
      @ ''   line4            '' @ connector @ ''line1       '' @ pipe @ ''       line4'' @ newline
      @ ''   line5                           '' @ pipe @ newline
      @ ''   line6                           '' @ connector @ ''line1long'' @ newline
      @ ''   line7                              line2'' @ newline
      @ ''   line8verylongverylongverylong      line3'' @ newline, None)"
  by code_simp

lemma test_indentation_space_of_second_annotation:
  "Write asciiWidth
     [newAnnot 0 [''line1''],
      newAnnot 8 [''line1'', ''line2'', ''line3'']]
   = (arrow @ ''       '' @ arrow @ newline
      @ pipe @ ''       '' @ connector @ ''line1'' @ newline
      @ pipe @ ''          line2'' @ newline
      @ connector @ ''line1   line3'' @ newline, None)"
  by code_simp

lemma test_utilise_every_space:
  "WriteR asciiWidth
     [newAnnotR 0 0 [''000'', ''100'', ''2000'', ''300000'', ''400000'', ''5000000'', ''6000000000000''],
      newAnnotR 8 0 [''line1'', ''line2'', ''line3'', ''line4''],
      newAnnotR 9 0 [''line1'']]
   = (arrow @ ''       '' @ arrow @ arrow @ newline
      @ pipe @ ''       '' @ pipe @ connector @ ''line1'' @ newline
      @ connector @ ''000  '' @ pipe @ newline
      @ ''   100  '' @ connector @ ''line1'' @ newline
      @ ''   2000    line2'' @ newline
      @ ''   300000  line3'' @ newline
      @ ''   400000  line4'' @ newline
      @ ''   5000000'' @ newline
      @ ''   6000000000000'' @ newline, None)"
  by code_simp

lemma test_mix_ranged_and_arrowed:
  "WriteR asciiWidth
     [newAnnotR 0 2 [],
      newAnnotR 4 0 [],
      newAnnotR 5 0 [],
      newAnnotR 7 11 [],
      newAnnotR 13 0 [],
      newAnnotR 14 0 []]
   = (cornerLeft @ teeDown @ cornerRight @ '' '' @ arrow @ arrow @ '' '' @ cornerLeft @ dash @ teeDown @ dash @ cornerRight @ '' '' @ arrow @ arrow @ newline
      @ '' '' @ pipe @ ''  '' @ pipe @ pipe @ ''   '' @ pipe @ ''   '' @ pipe @ connector @ newline
      @ '' '' @ pipe @ ''  '' @ pipe @ pipe @ ''   '' @ pipe @ ''   '' @ connector @ newline
      @ '' '' @ pipe @ ''  '' @ pipe @ pipe @ ''   '' @ connector @ newline
      @ '' '' @ pipe @ ''  '' @ pipe @ connector @ newline
      @ '' '' @ pipe @ ''  '' @ connector @ newline
      @ '' '' @ connector @ newline, None)"
  by code_simp

section \<open>The claims\<close>




text \<open>
  C2. Row placement is minimal. For annotations as the caller builds them, the placement
  ends without a panic, and every annotation of the slice handed to \<^verbatim>\<open>write\<close> ends on
  the first candidate row, counted from 0, at which \<^verbatim>\<open>checkLinesAndSetSpaces\<close> accepts it
  against the annotations to its right: the check accepts its row \<open>r\<close>, and it rejects
  every row from 0 to \<open>r - 1\<close>, so also \<open>r - 1\<close> when \<open>r > 0\<close>. The check is stated
  on the annotations as the placement leaves them: it reads their columns, rows and line
  lengths, and the placements that follow change leading spaces only (\<open>setRows_spec\<close>).
\<close>

theorem C2_row_placement_minimal:
  assumes "list_all fresh annots"
  shows "\<exists>fin. place StringWidth annots = Inr fin
     \<and> (\<forall>k<length fin. 0 \<le> row (fin ! k)
            \<and> fitResult (row (fin ! k)) (fin ! k) (drop (Suc k) fin) = Inr True
            \<and> (\<forall>r. 0 \<le> r \<and> r < row (fin ! k)
                   \<longrightarrow> fitResult r (fin ! k) (drop (Suc k) fin) = Inr False))"
proof -
  from assms have "\<forall>a\<in>set annots. fresh a" by (simp add: list_all_iff)
  from place_spec[OF this, of StringWidth] obtain fin where
    p: "place StringWidth annots = Inr fin" and ok: "\<forall>x\<in>set fin. pipesOk x"
    and each: "\<forall>j<length fin. 0 \<le> row (fin ! j)
            \<and> annotFitsFrom (row (fin ! j)) 0 (fin ! j) (drop (Suc j) fin)
            \<and> (\<forall>r. 0 \<le> r \<and> r < row (fin ! j)
                   \<longrightarrow> \<not> annotFitsFrom r 0 (fin ! j) (drop (Suc j) fin))"
    by blast
  have fr: "fitResult r (fin ! k) (drop (Suc k) fin)
            = Inr (annotFitsFrom r 0 (fin ! k) (drop (Suc k) fin))" if "0 \<le> r" for r k
  proof (rule fitResult_eq[OF _ that])
    show "\<forall>x\<in>set (drop (Suc k) fin). pipesOk x" using ok by (auto dest: in_set_dropD)
  qed
  from each fr have "\<forall>k<length fin. 0 \<le> row (fin ! k)
            \<and> fitResult (row (fin ! k)) (fin ! k) (drop (Suc k) fin) = Inr True
            \<and> (\<forall>r. 0 \<le> r \<and> r < row (fin ! k)
                   \<longrightarrow> fitResult r (fin ! k) (drop (Suc k) fin) = Inr False)"
    by simp
  with p show ?thesis by blast
qed

theorem C2_row_placement_minimal_witness:
  "list_all fresh [newAnnot 0 [''line1'', ''line2''], newAnnot 1 [''line1'', ''line2'']]
   \<and> (\<exists>fin. place asciiWidth [newAnnot 0 [''line1'', ''line2''], newAnnot 1 [''line1'', ''line2'']]
               = Inr fin
         \<and> map row fin = [3, 0]
         \<and> (\<forall>k<length fin. 0 \<le> row (fin ! k)
              \<and> fitResult (row (fin ! k)) (fin ! k) (drop (Suc k) fin) = Inr True
              \<and> (\<forall>r. 0 \<le> r \<and> r < row (fin ! k)
                     \<longrightarrow> fitResult r (fin ! k) (drop (Suc k) fin) = Inr False)))"
proof -
  let ?xs = "[newAnnot 0 [''line1'', ''line2''], newAnnot 1 [''line1'', ''line2'']]"
  have h: "list_all fresh ?xs" by (simp add: fresh_def newAnnot_def)
  have e: "map_sum id (map row) (place asciiWidth ?xs) = Inr [3, 0]" by code_simp
  from C2_row_placement_minimal[OF h, of asciiWidth] e h show ?thesis by auto
qed

text \<open>
  C3. Two annotations at the columns 0 and 10, each with the lines \<^verbatim>\<open>line1\<close> and
  \<^verbatim>\<open>line2\<close>, render as the header with an arrow at column 0 and an arrow at column 10,
  and two body rows: the connector and \<^verbatim>\<open>line1\<close> twice, two blanks apart, and
  \<^verbatim>\<open>line2\<close> twice under them. Both annotations are on row 0, and the call ends
  without a panic.
\<close>

theorem C3_two_annotations_ten_columns_apart:
  "Write asciiWidth [newAnnot 0 [''line1'', ''line2''], newAnnot 10 [''line1'', ''line2'']]
     = (arrow @ ''         '' @ arrow @ newline
        @ connector @ ''line1'' @ ''  '' @ connector @ ''line1'' @ newline
        @ ''   line2     line2'' @ newline, None)
   \<and> map_sum id (map row)
         (place asciiWidth [newAnnot 0 [''line1'', ''line2''], newAnnot 10 [''line1'', ''line2'']])
       = Inr [0, 0]"
  by code_simp

text \<open>
  C4 fails on the code. \<^verbatim>\<open>slices.CompactFunc\<close> runs before the sort and removes an
  annotation only when the one just before it in the caller's list has the same column.
  Two annotations at column 0 with one at column 6 between them are both kept; after the
  sort they are neighbours, the header asks \<^verbatim>\<open>strings.Repeat\<close> for \<open>0 - 1\<close> blanks, and
  the call panics before anything is written. The list without the later duplicate renders.
\<close>

theorem C4_duplicates_apart_panic:
  "Write asciiWidth [newAnnot 0 [''a''], newAnnot 6 [''b''], newAnnot 0 [''c'']]
     = ([], Some NegativeRepeatCount)
   \<and> Write asciiWidth [newAnnot 0 [''a''], newAnnot 6 [''b'']]
     = (arrow @ ''     '' @ arrow @ newline
        @ connector @ ''a'' @ ''  '' @ connector @ ''b'' @ newline, None)
   \<and> Write asciiWidth [newAnnot 0 [''a''], newAnnot 0 [''c''], newAnnot 6 [''b'']]
     = Write asciiWidth [newAnnot 0 [''a''], newAnnot 6 [''b'']]"
  by code_simp

text \<open>
  C5 fails on the code. The first loop of \<^verbatim>\<open>Write\<close> goes through the sorted annotations
  and returns at the first one that fails one of its two tests. Here the annotation at
  column 3 lies inside the range from 0 to 5, so the call returns the overlap error at
  the second annotation and never reaches the third, whose range from 7 to 7 is invalid.
\<close>

theorem C5_counterexample:
  "rangeInvalid (newAnnotR 7 7 [])
   \<and> WriteR asciiWidth [newAnnotR 0 5 [], newAnnotR 3 0 [], newAnnotR 7 7 []]
       = ([], Some (OverlapError 5 1 3))"
  by code_simp

text \<open>
  C5 as amended. Let the ranged annotation at the position \<open>i + 1\<close> of the sorted slice
  have a column that is not below its end column, and let no annotation before it fail a
  test of the loop: none of them is an invalid range, and none is reached by the range of
  the one before it. Then the call returns the error \<^verbatim>\<open>ColExceedsColEndError\<close> with the
  position \<open>i + 1\<close>, the column and the end column, and nothing is written. Nothing
  is assumed about the range of the annotation before the invalid one: when it reaches the
  column of the invalid one, the error is still \<^verbatim>\<open>ColExceedsColEndError\<close> and not
  \<^verbatim>\<open>OverlapError\<close>.
\<close>

theorem C5_first_failure_invalid_range:
  assumes "sorted_annots = SortFuncR (CompactFunc (\<lambda>a1 a2. Col a1 = Col a2) annots)"
    and "i < length sorted_annots"
    and "rangeInvalid (sorted_annots ! i)"
    and "\<forall>j<i. \<not> rangeInvalid (sorted_annots ! j)"
    and "\<forall>j<i. 0 < j \<longrightarrow> \<not> rangeOverlap (sorted_annots ! (j - 1)) (sorted_annots ! j)"
  shows "WriteR StringWidth annots
           = ([], Some (ColExceedsColEndError (int i + 1) (Col (sorted_annots ! i))
                          (ColEnd (sorted_annots ! i))))"
proof -
  from assms(2) have ne: "sorted_annots \<noteq> []" by auto
  then have c: "length (CompactFunc (\<lambda>a1 a2. Col a1 = Col a2) annots) \<noteq> 0"
    unfolding assms(1) SortFuncR_def by (metis length_0_conv length_sort)
  have "checkLoop StringWidth 0 None sorted_annots
      = Inl (ColExceedsColEndError (int (0 + i) + 1) (Col (sorted_annots ! i))
               (ColEnd (sorted_annots ! i)))"
    by (rule checkLoop_first_invalid[OF assms(2,3,4,5)]) simp
  with c show ?thesis by (simp add: WriteR_def Let_def assms(1)[symmetric])
qed

theorem C5_first_failure_invalid_range_witness:
  "[newAnnotR 0 4 [], newAnnotR 3 2 []]
     = SortFuncR (CompactFunc (\<lambda>a1 a2. Col a1 = Col a2) [newAnnotR 3 2 [], newAnnotR 0 4 []])
   \<and> 1 < length [newAnnotR 0 4 [], newAnnotR 3 2 []]
   \<and> rangeInvalid ([newAnnotR 0 4 [], newAnnotR 3 2 []] ! 1)
   \<and> \<not> rangeInvalid ([newAnnotR 0 4 [], newAnnotR 3 2 []] ! 0)
   \<and> rangeOverlap ([newAnnotR 0 4 [], newAnnotR 3 2 []] ! 0) ([newAnnotR 0 4 [], newAnnotR 3 2 []] ! 1)
   \<and> WriteR asciiWidth [newAnnotR 3 2 [], newAnnotR 0 4 []]
       = ([], Some (ColExceedsColEndError 2 3 2))"
proof -
  let ?s = "[newAnnotR 0 4 [], newAnnotR 3 2 []]"
  let ?xs = "[newAnnotR 3 2 [], newAnnotR 0 4 []]"
  have s: "?s = SortFuncR (CompactFunc (\<lambda>a1 a2. Col a1 = Col a2) ?xs)"
    by (simp add: SortFuncR_def newAnnotR_def)
  have l: "1 < length ?s" by simp
  have b: "rangeInvalid (?s ! 1)" by (simp add: rangeInvalid_def newAnnotR_def)
  have g: "\<not> rangeInvalid (?s ! 0)" by (simp add: rangeInvalid_def newAnnotR_def)
  have o: "rangeOverlap (?s ! 0) (?s ! 1)" by (simp add: rangeOverlap_def newAnnotR_def)
  from g have n1: "\<forall>j<1. \<not> rangeInvalid (?s ! j)" by simp
  have n2: "\<forall>j<1. 0 < j \<longrightarrow> \<not> rangeOverlap (?s ! (j - 1)) (?s ! j)" by simp
  from C5_first_failure_invalid_range[OF s l b n1 n2, of asciiWidth]
  have "WriteR asciiWidth ?xs = ([], Some (ColExceedsColEndError 2 3 2))"
    by (simp add: newAnnotR_def)
  with s l b g o show ?thesis by blast
qed

text \<open>
  C6 fails on the code in its second half. The range from 0 to 2 without lines has the
  header of the claim, but its body row starts with one blank: the connector stands under
  the middle of the range, at column 1, as the test \<^verbatim>\<open>one ranged annotation\<close> of
  \<^verbatim>\<open>src/annot_test.go\<close> expects.
\<close>

theorem C6_counterexample:
  "WriteR asciiWidth [newAnnotR 0 2 []]
     = (cornerLeft @ teeDown @ cornerRight @ newline @ '' '' @ connector @ newline, None)
   \<and> WriteR asciiWidth [newAnnotR 0 2 []]
     \<noteq> (cornerLeft @ teeDown @ cornerRight @ newline @ connector @ newline, None)"
  by code_simp

text \<open>
  C6 as amended. In the header, every ranged annotation whose pipe column lies in its
  range and which starts at or after the end of what is written gives, after the blanks
  up to its column, a bracket of one glyph per column of the range with the tee at the
  pipe column, in place of the arrow, and the next annotation goes on after its end
  column. A single annotation with the range from \<open>c\<close> to \<open>e\<close>, \<open>0 \<le> c < e\<close>, and no
  lines renders as the bracket at column \<open>c\<close> with the tee at the middle
  \<open>(c + e) div 2\<close>, and one body row, the connector under the middle: for the range from 0
  to 2 the header of three glyphs and the body row of one blank and the connector.
\<close>

theorem C6_range_bracket:
  assumes "0 \<le> c" "c < e"
  shows "WriteR StringWidth [newAnnotR c e []]
           = (replicate (nat c) (CHR '' '') @ bracket c ((c + e) div 2) e @ newline
              @ replicate (nat ((c + e) div 2)) (CHR '' '') @ connector @ newline, None)
     \<and> length (bracket c ((c + e) div 2) e) = 3 * nat (e - c + 1)
     \<and> (\<forall>a as w b. ColEnd a \<noteq> 0 \<and> w \<le> Col a \<and> Col a \<le> pipeColIdx a \<and> pipeColIdx a < ColEnd a
           \<longrightarrow> arrowOrRangeLoop (a # as) w b
                 = arrowOrRangeLoop as (ColEnd a + 1)
                     (b @ replicate (nat (Col a - w)) (CHR '' '')
                        @ bracket (Col a) (pipeColIdx a) (ColEnd a)))"
proof -
  define m where "m = (c + e) div 2"
  from assms have cm: "c \<le> m" "m < e" "0 \<le> m" by (simp_all add: m_def)
  from assms have e0: "e \<noteq> 0" by simp
  let ?a = "\<lparr>Col = c, Lines = [], row = 0,
             lines = [\<lparr>length_l = 0, leadingSpaces = m\<rparr>], pipeLeadingSpaces = [],
             ColEnd = e, pipeColIdx = m\<rparr>"
  have q: "quot (c + e) 2 = m" using assms by (simp add: quot_2 m_def)
  have ck: "checkLoop StringWidth 0 None [newAnnotR c e []] = Inr [?a]"
    using assms e0 by (simp add: newAnnotR_def q createLines_def Let_def)
  have h: "arrowOrRangeString [?a] = Inr (replicate (nat c) (CHR '' '') @ bracket c m e)"
    using arrowOrRangeLoop_range[of ?a 0 "[]" "[]"] assms cm e0
    by (simp add: arrowOrRangeString_def)
  have s: "writeRowR 0 [?a] [] = Inr (replicate (nat m) (CHR '' '') @ connector)"
    using cm by (simp add: writeSegmentR_def index_def Repeat_space)
  have r: "writeRowsR 0 1 [?a] out
             = (out @ replicate (nat m) (CHR '' '') @ connector @ newline, None)" for out
    using s by (simp add: writeRowsR.simps[of 0 1] writeRowsR.simps[of 1 1] del: writeRowR.simps)
  have w: "writeR [?a]
     = (replicate (nat c) (CHR '' '') @ bracket c m e @ newline
        @ replicate (nat m) (CHR '' '') @ connector @ newline, None)"
    using h by (simp add: writeR_def r)
  have "WriteR StringWidth [newAnnotR c e []]
     = (replicate (nat c) (CHR '' '') @ bracket c m e @ newline
        @ replicate (nat m) (CHR '' '') @ connector @ newline, None)"
    using ck w by (simp add: WriteR_def SortFuncR_def del: checkLoop.simps)
  with bracket_width[OF cm(1,2)] arrowOrRangeLoop_range show ?thesis
    unfolding m_def by blast
qed

theorem C6_range_bracket_witness:
  "(0::int) \<le> 0 \<and> (0::int) < 2
   \<and> WriteR asciiWidth [newAnnotR 0 2 []]
       = (cornerLeft @ teeDown @ cornerRight @ newline @ '' '' @ connector @ newline, None)
   \<and> bracket 0 1 2 = cornerLeft @ teeDown @ cornerRight"
proof -
  have a: "(0::int) \<le> 0" and b: "(0::int) < 2" by simp_all
  have br: "bracket 0 1 2 = cornerLeft @ teeDown @ cornerRight" by (simp add: bracket_def)
  from C6_range_bracket[OF a b, of asciiWidth] br show ?thesis by simp
qed

text \<open>
  C7. For a non-empty list of annotations as the caller builds them, the last annotation
  of the slice handed to \<^verbatim>\<open>write\<close>, which no annotation exceeds in its column, is on
  row 0.
\<close>

theorem C7_rightmost_on_row_zero:
  assumes "list_all fresh annots" "annots \<noteq> []"
  shows "\<exists>fin. place StringWidth annots = Inr fin \<and> Write StringWidth annots = write' fin
     \<and> fin \<noteq> [] \<and> row (last fin) = 0 \<and> list_all (\<lambda>a. Col a \<le> Col (last fin)) fin"
proof -
  define ns where "ns = normalized StringWidth annots"
  from assms have "\<forall>a\<in>set annots. fresh a" by (simp add: list_all_iff)
  from place_spec[OF this, of StringWidth] obtain fin where
    p: "place StringWidth annots = Inr fin" and lf: "length fin = length ns"
    and sh: "\<forall>j<length fin. shape (fin ! j) = shape (ns ! j)"
    and l0: "fin \<noteq> [] \<longrightarrow> row (last fin) = 0"
    unfolding ns_def by blast
  from assms(2) have "ns \<noteq> []" by (simp add: ns_def normalized_Nil)
  with lf have ne: "fin \<noteq> []" by auto
  have "map Col fin = map Col ns"
    by (rule nth_equalityI) (use lf sh in \<open>auto simp: shape_def\<close>)
  with normalized_sorted[of StringWidth annots] have so: "sorted (map Col fin)"
    by (simp add: ns_def)
  have "Col a \<le> Col (last fin)" if "a \<in> set fin" for a
  proof -
    from that obtain i where i: "i < length fin" "a = fin ! i" by (auto simp: in_set_conv_nth)
    with so have "map Col fin ! i \<le> map Col fin ! (length fin - 1)"
      by (intro sorted_nth_mono) auto
    with i ne show ?thesis by (simp add: last_conv_nth)
  qed
  then have "list_all (\<lambda>a. Col a \<le> Col (last fin)) fin" by (simp add: list_all_iff)
  with p ne l0 Write_place[OF assms(2) p] show ?thesis by blast
qed

theorem C7_rightmost_on_row_zero_witness:
  "list_all fresh [newAnnot 12 [''b''], newAnnot 36 [''c''], newAnnot 6 [''a'']]
   \<and> [newAnnot 12 [''b''], newAnnot 36 [''c''], newAnnot 6 [''a'']] \<noteq> []
   \<and> (\<exists>fin. place asciiWidth [newAnnot 12 [''b''], newAnnot 36 [''c''], newAnnot 6 [''a'']] = Inr fin
         \<and> Write asciiWidth [newAnnot 12 [''b''], newAnnot 36 [''c''], newAnnot 6 [''a'']] = write' fin
         \<and> fin \<noteq> [] \<and> row (last fin) = 0 \<and> Col (last fin) = 36
         \<and> list_all (\<lambda>a. Col a \<le> Col (last fin)) fin)"
proof -
  let ?xs = "[newAnnot 12 [''b''], newAnnot 36 [''c''], newAnnot 6 [''a'']]"
  have h: "list_all fresh ?xs" by (simp add: fresh_def newAnnot_def)
  have e: "map_sum id (\<lambda>fin. Col (last fin)) (place asciiWidth ?xs) = Inr 36" by code_simp
  from C7_rightmost_on_row_zero[OF h, of asciiWidth] e h show ?thesis by auto
qed

text \<open>
  C8. For annotations with pairwise different columns, every permutation of the list
  renders as the list does: the same text is written and the call ends the same way.
\<close>

theorem C8_permutation_renders_identically:
  assumes "distinct (map Col annots)" "mset annots' = mset annots"
  shows "Write StringWidth annots' = Write StringWidth annots"
proof -
  from assms(2) have "mset (map Col annots') = mset (map Col annots)" by simp
  with assms(1) have d': "distinct (map Col annots')" by (metis mset_eq_imp_distinct_iff)
  have "SortFunc annots' = SortFunc annots"
    unfolding SortFunc_def by (rule sort_key_perm_distinct[OF assms(2,1)])
  then have "place StringWidth annots' = place StringWidth annots"
    by (simp add: place_def CompactFunc_distinct[OF assms(1)] CompactFunc_distinct[OF d'])
  moreover from assms(2) have "annots' = [] \<longleftrightarrow> annots = []" by (metis mset_zero_iff)
  ultimately show ?thesis by (simp add: Write_def CompactFunc_Nil)
qed

theorem C8_permutation_renders_identically_witness:
  "distinct (map Col [newAnnot 6 [''one''], newAnnot 12 [''two''], newAnnot 36 [''three'']])
   \<and> mset [newAnnot 36 [''three''], newAnnot 6 [''one''], newAnnot 12 [''two'']]
       = mset [newAnnot 6 [''one''], newAnnot 12 [''two''], newAnnot 36 [''three'']]
   \<and> Write asciiWidth [newAnnot 36 [''three''], newAnnot 6 [''one''], newAnnot 12 [''two'']]
       = Write asciiWidth [newAnnot 6 [''one''], newAnnot 12 [''two''], newAnnot 36 [''three'']]"
proof -
  let ?xs = "[newAnnot 6 [''one''], newAnnot 12 [''two''], newAnnot 36 [''three'']]"
  let ?ys = "[newAnnot 36 [''three''], newAnnot 6 [''one''], newAnnot 12 [''two'']]"
  have d: "distinct (map Col ?xs)" by (simp add: newAnnot_def)
  have m: "mset ?ys = mset ?xs" by (simp add: add.commute)
  from C8_permutation_renders_identically[OF d m, of asciiWidth] d m show ?thesis by blast
qed

text \<open>
  C9 fails on the code. \<^verbatim>\<open>Write\<close> works on the caller's annotations and leaves their
  rows behind; its first loop builds \<^verbatim>\<open>lines\<close> and \<^verbatim>\<open>pipeLeadingSpaces\<close> anew and does not
  put \<^verbatim>\<open>row\<close> back to 0. For the annotations at the columns 0 and 1 the first call
  renders six lines and leaves the first annotation on row 3. The second call on the same
  annotations counts its row up from 3 to 6 with three pipe leading spaces, writes the
  header and three body rows, and panics with an index out of range on the fourth.
\<close>

theorem C9_second_render_panics:
  "Write asciiWidth [newAnnot 0 [''line1'', ''line2''], newAnnot 1 [''line1'', ''line2'']]
     = (arrow @ arrow @ newline
        @ pipe @ connector @ ''line1'' @ newline
        @ pipe @ ''   line2'' @ newline
        @ pipe @ newline
        @ connector @ ''line1'' @ newline
        @ ''   line2'' @ newline, None)
   \<and> map_sum id (Write asciiWidth)
         (place asciiWidth [newAnnot 0 [''line1'', ''line2''], newAnnot 1 [''line1'', ''line2'']])
     = Inr (arrow @ arrow @ newline
        @ pipe @ connector @ ''line1'' @ newline
        @ pipe @ ''   line2'' @ newline
        @ pipe @ newline, Some IndexOutOfRange)"
  by code_simp

text \<open>
  C10. A single annotation at a column \<open>c\<close> that is not negative, without lines, renders
  as the header, \<open>c\<close> blanks and the arrow, and exactly one body row, which is the
  connector with no blank before it, whatever \<open>c\<close> is: the line that \<^verbatim>\<open>Write\<close> adds for
  an annotation without lines has the leading space 0 and not \<open>c\<close>.
\<close>

theorem C10_no_lines_connector_at_column_zero:
  assumes "0 \<le> c"
  shows "Write StringWidth [newAnnot c []]
           = (replicate (nat c) (CHR '' '') @ arrow @ newline @ connector @ newline, None)
     \<and> place StringWidth [newAnnot c []]
           = Inr [\<lparr>Col = c, Lines = [], row = 0,
                   lines = [\<lparr>length_l = 0, leadingSpaces = 0\<rparr>], pipeLeadingSpaces = []\<rparr>]"
proof -
  let ?a = "\<lparr>Col = c, Lines = [], row = 0,
             lines = [\<lparr>length_l = 0, leadingSpaces = 0\<rparr>], pipeLeadingSpaces = []\<rparr>"
  have p: "place StringWidth [newAnnot c []] = Inr [?a]"
    by (simp add: place_def SortFunc_def initLines_def newAnnot_def)
  have h: "writeHeader [?a] 0 0 [] = Inr (replicate (nat c) (CHR '' '') @ arrow, 1)"
    using assms by (simp add: Repeat_space)
  have s: "writeRow 0 [?a] [] = Inr connector"
    by (simp add: writeSegment_def index_def Repeat_def)
  have r: "writeRows 0 1 [?a] out = (out @ connector @ newline, None)" for out
    using s by (simp add: writeRows.simps[of 0 1] writeRows.simps[of 1 1] del: writeRow.simps)
  have "write' [?a] = (replicate (nat c) (CHR '' '') @ arrow @ newline @ connector @ newline, None)"
    using h by (simp add: write'_def r del: writeHeader.simps)
  with p show ?thesis by (simp add: Write_def)
qed

theorem C10_no_lines_connector_at_column_zero_witness:
  "(0::int) \<le> 3
   \<and> Write asciiWidth [newAnnot 3 []] = (''   '' @ arrow @ newline @ connector @ newline, None)"
proof -
  have h: "(0::int) \<le> 3" by simp
  from C10_no_lines_connector_at_column_zero[OF h, of asciiWidth] show ?thesis
    by (simp add: numeral_3_eq_3)
qed

end
